theory Spec2Isabelle
  imports Complex_Main
begin

section \<open>Python strings\<close>

text \<open>
  The batch translator of \<^verbatim>\<open>src/Translator/base.py\<close> works on Python \<^verbatim>\<open>str\<close> values.
  A \<^typ>\<open>string\<close> is a list of characters; a \<^typ>\<open>char\<close> stands for one code point below
  256. On that range \<^verbatim>\<open>str.strip()\<close> and the regular expression class \<^verbatim>\<open>\s\<close> remove exactly
  the twelve code points of \<open>is_space\<close>, and \<^verbatim>\<open>\d\<close> matches exactly the ten ASCII digits.
\<close>

definition is_space :: "char \<Rightarrow> bool" where
  "is_space c = (c \<in> set [CHR 0x09, CHR 0x0A, CHR 0x0B, CHR 0x0C, CHR 0x0D,
                           CHR 0x1C, CHR 0x1D, CHR 0x1E, CHR 0x1F, CHR 0x20,
                           CHR 0x85, CHR 0xA0])"

definition is_digit :: "char \<Rightarrow> bool" where
  "is_digit c = (c \<in> set ''0123456789'')"

definition newline :: char where
  "newline = CHR 0x0A"

definition sep :: string where
  "sep = '':::''"

text \<open>\<^verbatim>\<open>s.strip()\<close>: whitespace removed at both ends.\<close>

definition py_strip :: "string \<Rightarrow> string" where
  "py_strip s = rev (dropWhile is_space (rev (dropWhile is_space s)))"

text \<open>\<^verbatim>\<open>':::' in line\<close>.\<close>

fun has_sep :: "string \<Rightarrow> bool" where
  "has_sep [] = False"
| "has_sep (x # xs) = (take 3 (x # xs) = sep \<or> has_sep xs)"

text \<open>
  \<^verbatim>\<open>line.split(':::')\<close>: the pieces between the occurrences of the separator, found from
  the left and not overlapping. The result is never empty: a string without separator is
  its own single piece.
\<close>

function py_split :: "string \<Rightarrow> string list" where
  "py_split s =
     (if s = [] then [[]]
      else if take 3 s = sep then [] # py_split (drop 3 s)
      else (let r = py_split (tl s) in (hd s # hd r) # tl r))"
  by pat_completeness auto
termination
  by (relation "measure length") (auto simp: sep_def)

declare py_split.simps [simp del]

text \<open>\<^verbatim>\<open>line.split(':::', 1)\<close>: split at the first occurrence only.\<close>

fun py_split1 :: "string \<Rightarrow> string list" where
  "py_split1 [] = [[]]"
| "py_split1 (x # xs) =
     (if take 3 (x # xs) = sep then [[], drop 3 (x # xs)]
      else (let r = py_split1 xs in (x # hd r) # tl r))"

text \<open>\<^verbatim>\<open>s.split('\n')\<close>.\<close>

fun split_lines :: "string \<Rightarrow> string list" where
  "split_lines [] = [[]]"
| "split_lines (x # xs) =
     (if x = newline then [] # split_lines xs
      else (let r = split_lines xs in (x # hd r) # tl r))"

text \<open>\<^verbatim>\<open>sep.join(parts)\<close>, used to state what a split preserves.\<close>

fun py_join :: "string \<Rightarrow> string list \<Rightarrow> string" where
  "py_join s [] = []"
| "py_join s [p] = p"
| "py_join s (p # q # ps) = p @ s @ py_join s (q # ps)"

section \<open>Response Parser\<close>

text \<open>
  The fallback pattern of \<^verbatim>\<open>call_api_translate\<close> (line 174) is
  \<^verbatim>\<open>re.match(r"^(\d+)\s*(?:[|:>.)\]])\s*(.*)", line)\<close>.
  The character class holds the six characters \<^verbatim>\<open>| : > . ) ]\<close>.
  Every quantifier is greedy and none can give back a character to what follows it (a digit
  is neither whitespace nor a separator, whitespace is not a separator, and the last group
  always matches), so the match is found in one pass from the left: all leading digits, all
  whitespace, one separator, all whitespace, then group 2 up to the first newline.
  The result is \<open>(group 1, group 2)\<close>.
\<close>

definition separators :: string where
  "separators = ''|:>.)]''"

definition re_match :: "string \<Rightarrow> (string \<times> string) option" where
  "re_match line =
     (let digits = takeWhile is_digit line;
          r = dropWhile is_space (dropWhile is_digit line)
      in if digits = [] then None
         else (case r of
                 [] \<Rightarrow> None
               | c # r' \<Rightarrow>
                   if c \<in> set separators
                   then Some (digits, takeWhile (\<lambda>c. c \<noteq> newline) (dropWhile is_space r'))
                   else None))"

text \<open>
  The body of the loop over \<^verbatim>\<open>translated_lines\<close> (lines 167 to 176): the entry that one
  payload line puts into \<^verbatim>\<open>translated_map\<close>, or \<open>None\<close> when the line is skipped.
\<close>

definition line_entry :: "string \<Rightarrow> (string \<times> string) option" where
  "line_entry line =
     (if has_sep line
      then (let parts = py_split1 line
            in Some (py_strip (parts ! 0), py_strip (parts ! 1)))
      else (case re_match line of
              Some (g1, g2) \<Rightarrow> Some (g1, py_strip g2)
            | None \<Rightarrow> None))"

text \<open>
  Lines 165 to 176: the payload is trimmed, cut at newlines, and the entries are stored
  in order, a later entry overwriting an earlier one with the same key.
\<close>

definition parse_response :: "string \<Rightarrow> (string \<rightharpoonup> string)" where
  "parse_response full_content =
     fold (\<lambda>line m. case line_entry line of Some (k, v) \<Rightarrow> m(k \<mapsto> v) | None \<Rightarrow> m)
          (split_lines (py_strip full_content)) Map.empty"

section \<open>Reconciliation\<close>

text \<open>
  Lines 178 to 183. The default of \<^verbatim>\<open>translated_map.get\<close> is computed before the lookup;
  \<^verbatim>\<open>line.split(':::')[1]\<close> is only evaluated for a line that contains the separator, where
  the split has at least two pieces.
\<close>

definition reconcile_line :: "(string \<rightharpoonup> string) \<Rightarrow> string \<Rightarrow> string" where
  "reconcile_line translated_map line =
     (let o_id = py_strip (py_split line ! 0);
          dflt = (if has_sep line then py_strip (py_split line ! 1) else line);
          final_text = (case translated_map o_id of Some t \<Rightarrow> t | None \<Rightarrow> dflt)
      in o_id @ sep @ final_text)"

definition reconcile :: "(string \<rightharpoonup> string) \<Rightarrow> string list \<Rightarrow> string list" where
  "reconcile translated_map batch_lines = map (reconcile_line translated_map) batch_lines"

section \<open>Configuration and errors\<close>

datatype py_error = ValueError | TypeError | IndexError | FileNotFoundError

text \<open>
  \<^verbatim>\<open>config_data\<close> starts as \<^verbatim>\<open>DEFAULT_CONFIG\<close> and \<^verbatim>\<open>load_config\<close> copies every key of
  \<^verbatim>\<open>config.json\<close> into it unchecked. \<^verbatim>\<open>start_process\<close> then overwrites \<^verbatim>\<open>threads\<close> and
  \<^verbatim>\<open>batch_size\<close> with the integers of two \<^verbatim>\<open>IntVar\<close>s (any integer, also zero or negative),
  and the URL, key, model and delay with the values of string and float variables. It does
  not touch \<^verbatim>\<open>top_k\<close>, which therefore holds whatever JSON value the file gave
  (\<open>None\<close> stands for a missing key, where \<^verbatim>\<open>get\<close> supplies \<open>-1\<close>). The remaining keys only fill the request body.
\<close>

datatype py_value = PyNone | PyBool bool | PyInt int | PyFloat real | PyStr string | PyOther

record settings =
  threads :: int
  batch_size :: int
  stream :: bool
  top_k :: "py_value option"

text \<open>
  Line 128, \<^verbatim>\<open>settings.get('top_k', -1) > 0\<close>: Python orders numbers (a bool is the integer
  0 or 1) and raises \<^verbatim>\<open>TypeError\<close> when a string, \<^verbatim>\<open>None\<close>, a list or a dict is compared with
  an integer.
\<close>

fun top_k_positive :: "py_value option \<Rightarrow> py_error + bool" where
  "top_k_positive None = Inr False"
| "top_k_positive (Some (PyBool b)) = Inr b"
| "top_k_positive (Some (PyInt i)) = Inr (0 < i)"
| "top_k_positive (Some (PyFloat r)) = Inr (0 < r)"
| "top_k_positive (Some PyNone) = Inl TypeError"
| "top_k_positive (Some (PyStr s)) = Inl TypeError"
| "top_k_positive (Some PyOther) = Inl TypeError"

section \<open>Translation Client\<close>

text \<open>
  The remote API is the environment of \<^verbatim>\<open>call_api_translate\<close>. One line that
  \<^verbatim>\<open>response.iter_lines()\<close> yields takes one of six paths through the loop body
  (lines 143 to 157):
  \<^item> \<open>Blank\<close>: the line is empty, \<^verbatim>\<open>if line:\<close> fails;
  \<^item> \<open>Undecodable\<close>: \<^verbatim>\<open>line.decode('utf-8')\<close> raises, outside the inner \<^verbatim>\<open>try\<close>;
  \<^item> \<open>NotData\<close>: the decoded line does not start with \<^verbatim>\<open>data: \<close>;
  \<^item> \<open>DoneMarker\<close>: the data is \<^verbatim>\<open>[DONE]\<close>;
  \<^item> \<open>Delta c\<close>: the data is JSON whose first choice has the delta content \<open>c\<close>, a string;
  \<^item> \<open>NoDelta\<close>: \<^verbatim>\<open>json.loads\<close>, a lookup or the concatenation raises, which the bare
    \<^verbatim>\<open>except\<close> swallows.

  \<open>Got stop l\<close> is an iteration that receives \<open>l\<close> and reads \<open>stop\<close> from
  \<^verbatim>\<open>stop_event.is_set()\<close>; \<open>ReadFails\<close> is \<^verbatim>\<open>iter_lines\<close> raising instead of yielding.
\<close>

datatype sse_line = Blank | Undecodable | NotData | DoneMarker | Delta string | NoDelta

datatype stream_item = ReadFails | Got bool sse_line

text \<open>
  \<open>json_content\<close> is what \<^verbatim>\<open>response.json()['choices'][0]['message']['content']\<close> gives in
  the non-streaming branch, \<open>None\<close> when that expression, \<^verbatim>\<open>len\<close> or \<^verbatim>\<open>strip\<close> raises on it.
  \<open>post = None\<close> is \<^verbatim>\<open>requests.post\<close> raising (no connection, timeout after 120 seconds).
\<close>

record response =
  status_code :: int
  iter_lines :: "stream_item list"
  json_content :: "string option"

record api_env =
  stop_at_entry :: bool
  post :: "response option"

text \<open>
  The streaming loop, lines 142 to 157: the accumulated \<^verbatim>\<open>full_content\<close>, or \<open>None\<close> when an
  exception leaves the loop.
\<close>

fun read_stream :: "stream_item list \<Rightarrow> string \<Rightarrow> string option" where
  "read_stream [] full_content = Some full_content"
| "read_stream (ReadFails # rest) full_content = None"
| "read_stream (Got stop l # rest) full_content =
     (if stop then Some full_content
      else (case l of
              Blank \<Rightarrow> read_stream rest full_content
            | Undecodable \<Rightarrow> None
            | NotData \<Rightarrow> read_stream rest full_content
            | DoneMarker \<Rightarrow> Some full_content
            | Delta content \<Rightarrow> read_stream rest (full_content @ content)
            | NoDelta \<Rightarrow> read_stream rest full_content))"

text \<open>
  \<^verbatim>\<open>call_api_translate\<close>, lines 102 to 187. \<open>Inr\<close> is the returned list, \<open>Inl\<close> an exception
  that leaves the function. The \<^verbatim>\<open>try\<close> block opens at line 131: the test of the flag, the
  prompt, the rate limiter and the request body with its \<^verbatim>\<open>top_k\<close> test come before it.
  \<^verbatim>\<open>wait_for_slot\<close> only delays the caller and the log callback only reports, so neither
  appears in the result.
\<close>

definition call_api_translate :: "string list \<Rightarrow> settings \<Rightarrow> api_env \<Rightarrow> py_error + string list" where
  "call_api_translate batch_lines st env =
     (if stop_at_entry env then Inr batch_lines
      else (case top_k_positive (top_k st) of
              Inl e \<Rightarrow> Inl e
            | Inr with_top_k \<Rightarrow>
                (case post env of
                   None \<Rightarrow> Inr batch_lines
                 | Some resp \<Rightarrow>
                     if status_code resp \<noteq> 200 then Inr batch_lines
                     else (case (if stream st then read_stream (iter_lines resp) []
                                 else json_content resp) of
                             None \<Rightarrow> Inr batch_lines
                           | Some full_content \<Rightarrow>
                               Inr (reconcile (parse_response full_content) batch_lines)))))"

section \<open>Pipeline Coordinator: loading and partitioning\<close>

text \<open>Lines 625 to 641 of \<^verbatim>\<open>run_logic\<close>; \<open>raw\<close> is the list of trimmed input lines.\<close>

definition has_header :: "string list \<Rightarrow> bool" where
  "has_header raw = (raw \<noteq> [] \<and> take 4 (hd raw) = ''0:::'')"

definition init_output :: "string list \<Rightarrow> string list" where
  "init_output raw =
     map (\<lambda>line. if has_sep line then py_strip (py_split line ! 0) @ sep else line) raw"

definition start_off :: "string list \<Rightarrow> nat" where
  "start_off raw = (if has_header raw then 1 else 0)"

definition data_points :: "string list \<Rightarrow> (string \<times> nat) list" where
  "data_points raw =
     map (\<lambda>(i, line). (line, start_off raw + i)) (enumerate 0 (drop (start_off raw) raw))"

text \<open>
  \<^verbatim>\<open>math.ceil(total / n_threads)\<close> for \<open>n_threads \<ge> 1\<close>. Python divides as floats; for
  line counts below \<open>2 ^ 53\<close> the rounded quotient has the same ceiling as the exact one.
\<close>

definition py_ceil_div :: "int \<Rightarrow> int \<Rightarrow> int" where
  "py_ceil_div a b = - ((- a) div b)"

text \<open>\<^verbatim>\<open>range(i, stop, step)\<close> for a positive step.\<close>

function py_range :: "nat \<Rightarrow> nat \<Rightarrow> nat \<Rightarrow> nat list" where
  "py_range i stop step =
     (if 0 < step \<and> i < stop then i # py_range (i + step) stop step else [])"
  by pat_completeness auto
termination
  by (relation "measure (\<lambda>(i, stop, step). stop - i)") auto

declare py_range.simps [simp del]

text \<open>
  The Partitioner, lines 643 to 650. \<^verbatim>\<open>range\<close> raises \<^verbatim>\<open>ValueError\<close> when its step is zero.
\<close>

definition make_chunks :: "'a list \<Rightarrow> int \<Rightarrow> py_error + 'a list list" where
  "make_chunks dps n =
     (let total = length dps;
          n_threads = max 1 n;
          chunk_size = nat (py_ceil_div (int total) n_threads)
      in if chunk_size = 0 then Inl ValueError
         else Inr (filter (\<lambda>c. c \<noteq> [])
                     (map (\<lambda>i. take chunk_size (drop i dps)) (py_range 0 total chunk_size))))"

section \<open>Workers, checkpoints and the job\<close>

text \<open>
  The workers are threads over shared state, so the job is a state machine: the state
  holds the globals of the module and the two files, and each worker has a program
  counter into \<^verbatim>\<open>worker_process\<close> (lines 206 to 227) and \<^verbatim>\<open>save_progress_file\<close>
  (lines 95 to 99):
  \<^item> \<open>LoopTop i\<close>: at the head of the loop, batch starting at position \<open>i\<close> of the chunk;
  \<^item> \<open>Calling i\<close>: the flag was clear at line 207, \<^verbatim>\<open>call_api_translate\<close> is running;
  \<^item> \<open>Writing i ps\<close>: in the loop of lines 220 and 221 with the pairs \<open>ps\<close> still to store,
    and with no pair left, waiting for \<^verbatim>\<open>file_write_lock\<close>;
  \<^item> \<open>Flushing i pos\<close>: holding the lock, the file opened (and so emptied), about to write
    slot \<open>pos\<close>;
  \<^item> \<open>Stopped n\<close>: left the loop at line 209 after \<open>n\<close> processed entries;
  \<^item> \<open>Finished\<close>: the loop ran out; \<open>Crashed e\<close>: an exception ended the thread.
\<close>

datatype pc =
    LoopTop nat
  | Calling nat
  | Writing nat "(nat \<times> string) list"
  | Flushing nat nat
  | Stopped nat
  | Finished
  | Crashed py_error

record worker =
  chunk_data :: "(string \<times> nat) list"
  pc :: pc

record job =
  shared_output_lines :: "string list"
  stop_event :: bool
  file_write_lock :: "nat option"
  temp_file :: "string option"
  output_file :: "string option"
  workers :: "worker list"

definition set_pc :: "nat \<Rightarrow> pc \<Rightarrow> job \<Rightarrow> job" where
  "set_pc w p s = s\<lparr>workers := (workers s)[w := (workers s ! w)\<lparr>pc := p\<rparr>]\<rparr>"

text \<open>
  One step of worker \<open>w\<close> that needs nothing from the network. Storing into a list
  beyond its end raises \<^verbatim>\<open>IndexError\<close>. A worker that finds the lock taken waits.
\<close>

definition worker_step :: "settings \<Rightarrow> nat \<Rightarrow> job \<Rightarrow> job" where
  "worker_step st w s =
     (let buf = shared_output_lines s
      in case pc (workers s ! w) of
           LoopTop i \<Rightarrow>
             if batch_size st = 0 then set_pc w (Crashed ValueError) s
             else if 0 < batch_size st \<and> i < length (chunk_data (workers s ! w))
             then (if stop_event s then set_pc w (Stopped i) s else set_pc w (Calling i) s)
             else set_pc w Finished s
         | Calling i \<Rightarrow> s
         | Writing i [] \<Rightarrow>
             if file_write_lock s = None
             then set_pc w (Flushing i 0) (s\<lparr>file_write_lock := Some w, temp_file := Some []\<rparr>)
             else s
         | Writing i ((idx, result_line) # rest) \<Rightarrow>
             if idx < length buf
             then set_pc w (Writing i rest) (s\<lparr>shared_output_lines := buf[idx := result_line]\<rparr>)
             else set_pc w (Crashed IndexError) s
         | Flushing i pos \<Rightarrow>
             if pos < length buf
             then set_pc w (Flushing i (pos + 1))
                    (s\<lparr>temp_file := Some (case_option [] id (temp_file s) @ buf ! pos @ [newline])\<rparr>)
             else set_pc w (LoopTop (i + nat (batch_size st))) (s\<lparr>file_write_lock := None\<rparr>)
         | Stopped n \<Rightarrow> s
         | Finished \<Rightarrow> s
         | Crashed e \<Rightarrow> s)"

text \<open>
  The readings of the flag that an environment of the call reports. A reading of \<open>True\<close>
  needs the flag to be set by the time the call returns.
\<close>

fun item_flag :: "stream_item \<Rightarrow> bool" where
  "item_flag ReadFails = False"
| "item_flag (Got stop l) = stop"

definition flag_seen :: "api_env \<Rightarrow> bool" where
  "flag_seen env =
     (stop_at_entry env \<or>
      (case post env of None \<Rightarrow> False | Some resp \<Rightarrow> \<exists>x\<in>set (iter_lines resp). item_flag x))"

text \<open>The call of line 218 for the batch at position \<open>i\<close>, in the environment \<open>env\<close>.\<close>

definition call_step :: "settings \<Rightarrow> nat \<Rightarrow> api_env \<Rightarrow> job \<Rightarrow> job" where
  "call_step st w env s =
     (case pc (workers s ! w) of
        Calling i \<Rightarrow>
          if flag_seen env \<and> \<not> stop_event s then s
          else (let batch = take (nat (batch_size st)) (drop i (chunk_data (workers s ! w)));
                    batch_lines = map fst batch;
                    batch_indices = map snd batch
                in case call_api_translate batch_lines st env of
                     Inl e \<Rightarrow> set_pc w (Crashed e) s
                   | Inr translated_batch \<Rightarrow>
                       set_pc w (Writing i (zip batch_indices translated_batch)) s)
      | _ \<Rightarrow> s)"

text \<open>
  What can happen next: the user asks to stop (\<^verbatim>\<open>stop_process\<close>), a worker takes a step,
  or the call of a worker returns. A list of such events is one interleaving of the
  threads.
\<close>

datatype event = StopRequest | Run nat | Call nat api_env

fun step :: "settings \<Rightarrow> job \<Rightarrow> event \<Rightarrow> job" where
  "step st s StopRequest = s\<lparr>stop_event := True\<rparr>"
| "step st s (Run w) = (if w < length (workers s) then worker_step st w s else s)"
| "step st s (Call w env) = (if w < length (workers s) then call_step st w env s else s)"

definition run_schedule :: "settings \<Rightarrow> job \<Rightarrow> event list \<Rightarrow> job" where
  "run_schedule st s evs = fold (\<lambda>e s'. step st s' e) evs s"

text \<open>
  \<^verbatim>\<open>run_logic\<close> up to the start of the threads: \<^verbatim>\<open>start_process\<close> has cleared the flag; the
  two files are as the job finds them.
\<close>

definition start_job :: "settings \<Rightarrow> string list \<Rightarrow> string option \<Rightarrow> string option \<Rightarrow> py_error + job" where
  "start_job st raw tmp out =
     (case make_chunks (data_points raw) (threads st) of
        Inl e \<Rightarrow> Inl e
      | Inr chunks \<Rightarrow>
          Inr \<lparr>shared_output_lines = init_output raw, stop_event = False,
               file_write_lock = None, temp_file = tmp, output_file = out,
               workers = map (\<lambda>c. \<lparr>chunk_data = c, pc = LoopTop 0\<rparr>) chunks\<rparr>)"

text \<open>
  Lines 671 to 674, reached when every thread has ended. \<^verbatim>\<open>shutil.copy\<close> raises
  \<^verbatim>\<open>FileNotFoundError\<close> when there is no checkpoint file, after the old output was removed;
  \<^verbatim>\<open>run_logic\<close> prints the exception.
\<close>

fun ended :: "pc \<Rightarrow> bool" where
  "ended (Stopped n) = True"
| "ended Finished = True"
| "ended (Crashed e) = True"
| "ended p = False"

definition all_joined :: "job \<Rightarrow> bool" where
  "all_joined s = list_all (\<lambda>wk. ended (pc wk)) (workers s)"

definition finalize :: "job \<Rightarrow> job \<times> py_error option" where
  "finalize s =
     (if \<not> stop_event s
      then (case temp_file s of
              None \<Rightarrow> (s\<lparr>output_file := None\<rparr>, Some FileNotFoundError)
            | Some checkpoint \<Rightarrow> (s\<lparr>output_file := Some checkpoint\<rparr>, None))
      else (s, None))"

text \<open>The text that \<^verbatim>\<open>save_progress_file\<close> writes for a buffer.\<close>

definition file_text :: "string list \<Rightarrow> string" where
  "file_text buf = concat (map (\<lambda>line. line @ [newline]) buf)"

section \<open>The fallback rule as the specification words it\<close>

text \<open>
  Section 4.3, rule 2 of the specification: a leading integer identifier followed by one
  separator character from the set \<^verbatim>\<open>{|, :, >, ., ]}\<close> and then free text.
\<close>

definition spec_separators :: string where
  "spec_separators = ''|:>.]''"

definition spec_fallback :: "string \<Rightarrow> bool" where
  "spec_fallback line =
     (takeWhile is_digit line \<noteq> [] \<and>
      (case dropWhile is_digit line of [] \<Rightarrow> False | c # rest \<Rightarrow> c \<in> set spec_separators))"

section \<open>The moves of the job and its invariants\<close>

text \<open>
  \<open>move st s s'\<close> holds when one event can take the job from \<open>s\<close> to \<open>s'\<close>: every
  step of \<open>step\<close> that changes the state is one of these six moves (\<open>step_move\<close>
  below), so what every move preserves holds after every schedule.
\<close>

fun is_flushing :: "pc \<Rightarrow> bool" where
  "is_flushing (Flushing i pos) = True"
| "is_flushing p = False"

inductive move :: "settings \<Rightarrow> job \<Rightarrow> job \<Rightarrow> bool" for st :: settings where
  stop_request: "move st s (s\<lparr>stop_event := True\<rparr>)"
| goto: "w < length (workers s) \<Longrightarrow> \<not> is_flushing (pc (workers s ! w)) \<Longrightarrow>
         (case pc (workers s ! w) of
            LoopTop i \<Rightarrow>
              p = Calling i \<or> p = Stopped i \<and> stop_event s \<or> p = Finished \<or>
              p = Crashed ValueError
          | Calling i \<Rightarrow> (\<exists>e. p = Crashed e) \<or>
              (\<exists>env tb.
                 call_api_translate
                   (map fst (take (nat (batch_size st)) (drop i (chunk_data (workers s ! w))))) st env
                   = Inr tb \<and>
                 p = Writing i
                       (zip (map snd (take (nat (batch_size st)) (drop i (chunk_data (workers s ! w))))) tb))
          | Writing i ps \<Rightarrow> p = Crashed IndexError
          | _ \<Rightarrow> False) \<Longrightarrow>
         move st s (set_pc w p s)"
| store: "w < length (workers s) \<Longrightarrow> pc (workers s ! w) = Writing i ((idx, v) # rest) \<Longrightarrow>
          idx < length (shared_output_lines s) \<Longrightarrow>
          move st s (set_pc w (Writing i rest)
                       (s\<lparr>shared_output_lines := (shared_output_lines s)[idx := v]\<rparr>))"
| lock: "w < length (workers s) \<Longrightarrow> pc (workers s ! w) = Writing i [] \<Longrightarrow>
         file_write_lock s = None \<Longrightarrow>
         move st s (set_pc w (Flushing i 0) (s\<lparr>file_write_lock := Some w, temp_file := Some []\<rparr>))"
| write_line: "w < length (workers s) \<Longrightarrow> pc (workers s ! w) = Flushing i pos \<Longrightarrow>
         pos < length (shared_output_lines s) \<Longrightarrow>
         move st s (set_pc w (Flushing i (Suc pos))
           (s\<lparr>temp_file :=
                Some (case_option [] id (temp_file s) @ shared_output_lines s ! pos @ [newline])\<rparr>))"
| unlock: "w < length (workers s) \<Longrightarrow> pc (workers s ! w) = Flushing i pos \<Longrightarrow>
         \<not> pos < length (shared_output_lines s) \<Longrightarrow>
         move st s (set_pc w (LoopTop (i + nat (batch_size st))) (s\<lparr>file_write_lock := None\<rparr>))"

text \<open>A worker is inside \<^verbatim>\<open>save_progress_file\<close> exactly when it holds the lock.\<close>

definition lock_inv :: "job \<Rightarrow> bool" where
  "lock_inv s =
     (\<forall>w. (w < length (workers s) \<and> is_flushing (pc (workers s ! w))) \<longleftrightarrow>
          file_write_lock s = Some w)"

text \<open>The batch of a worker at position \<open>i\<close>: \<^verbatim>\<open>chunk_data[i:i+batch_size]\<close>.\<close>

definition batch_of :: "settings \<Rightarrow> worker \<Rightarrow> nat \<Rightarrow> (string \<times> nat) list" where
  "batch_of st wk i = take (nat (batch_size st)) (drop i (chunk_data wk))"

text \<open>A worker stores only into the slots of its current batch.\<close>

definition own_ok :: "settings \<Rightarrow> worker \<Rightarrow> bool" where
  "own_ok st wk =
     (case pc wk of
        Writing i ps \<Rightarrow> fst ` set ps \<subseteq> snd ` set (batch_of st wk i)
      | _ \<Rightarrow> True)"

definition owns_writes :: "settings \<Rightarrow> job \<Rightarrow> bool" where
  "owns_writes st s = (\<forall>wk\<in>set (workers s). own_ok st wk)"

text \<open>
  The shape of the checkpoint file: while a worker holds the lock the file holds the
  lines written so far; with the lock free it is the file that the job found (\<open>tmp\<close>) or
  holds one line for every slot. \<open>Q k v\<close> is a property of the line \<open>v\<close> written for
  slot \<open>k\<close>.
\<close>

definition ckpt_ok :: "(nat \<Rightarrow> string \<Rightarrow> bool) \<Rightarrow> string option \<Rightarrow> job \<Rightarrow> bool" where
  "ckpt_ok Q tmp s =
     (case file_write_lock s of
        None \<Rightarrow>
          temp_file s = tmp \<or>
          (\<exists>vs. temp_file s = Some (file_text vs) \<and> length vs = length (shared_output_lines s) \<and>
                (\<forall>k<length vs. Q k (vs ! k)))
      | Some w \<Rightarrow>
          (\<exists>i vs. pc (workers s ! w) = Flushing i (length vs) \<and>
                  length vs \<le> length (shared_output_lines s) \<and>
                  temp_file s = Some (file_text vs) \<and> (\<forall>k<length vs. Q k (vs ! k))))"

definition header_line :: "nat \<Rightarrow> string \<Rightarrow> bool" where
  "header_line k v = (k = 0 \<longrightarrow> v = ''0:::'')"

text \<open>
  Lines without a newline character: the lines that \<^verbatim>\<open>readlines\<close> and \<^verbatim>\<open>strip\<close> give, and
  what has to hold of every slot for the checkpoint to have one line for each.
\<close>

definition no_newline :: "string \<Rightarrow> bool" where
  "no_newline v = (newline \<notin> set v)"

definition clean_ok :: "worker \<Rightarrow> bool" where
  "clean_ok wk =
     ((\<forall>x\<in>set (chunk_data wk). no_newline (fst x)) \<and>
      (case pc wk of Writing i ps \<Rightarrow> \<forall>x\<in>set ps. no_newline (snd x) | _ \<Rightarrow> True))"

definition lines_clean :: "job \<Rightarrow> bool" where
  "lines_clean s =
     ((\<forall>v\<in>set (shared_output_lines s). no_newline v) \<and> (\<forall>wk\<in>set (workers s). clean_ok wk))"

text \<open>
  What a worker has left alone. \<open>frontier st p\<close> is the position in the chunk from which
  on a worker at \<open>p\<close> has not begun any batch; an ended or crashed thread claims nothing.
  \<open>untouched\<close> says that the slots from the frontier on still hold their initial values,
  \<open>disjoint_chunks\<close> that no buffer index occurs twice in the chunks, and \<open>stopped_flag\<close>
  that a worker has left its loop at line 209 only with the flag set.
\<close>

fun frontier :: "settings \<Rightarrow> pc \<Rightarrow> nat option" where
  "frontier st (LoopTop i) = Some i"
| "frontier st (Calling i) = Some i"
| "frontier st (Writing i ps) = Some (i + nat (batch_size st))"
| "frontier st (Flushing i pos) = Some (i + nat (batch_size st))"
| "frontier st (Stopped n) = Some n"
| "frontier st Finished = None"
| "frontier st (Crashed e) = None"

definition untouched_ok :: "settings \<Rightarrow> string list \<Rightarrow> string list \<Rightarrow> worker \<Rightarrow> bool" where
  "untouched_ok st init buf wk =
     (case frontier st (pc wk) of
        None \<Rightarrow> True
      | Some n \<Rightarrow>
          \<forall>j. n \<le> j \<and> j < length (chunk_data wk) \<longrightarrow>
              buf ! snd (chunk_data wk ! j) = init ! snd (chunk_data wk ! j))"

definition untouched :: "settings \<Rightarrow> string list \<Rightarrow> job \<Rightarrow> bool" where
  "untouched st init s =
     (\<forall>w<length (workers s). untouched_ok st init (shared_output_lines s) (workers s ! w))"

definition disjoint_chunks :: "job \<Rightarrow> bool" where
  "disjoint_chunks s = distinct (concat (map (map snd \<circ> chunk_data) (workers s)))"

definition stopped_flag :: "job \<Rightarrow> bool" where
  "stopped_flag s = (\<forall>w n. w < length (workers s) \<and> pc (workers s ! w) = Stopped n \<longrightarrow> stop_event s)"

section \<open>Splitting and joining\<close>

lemma py_split_Nil: "py_split [] = [[]]"
  by (simp add: py_split.simps)

lemma py_split_Cons:
  "py_split (x # xs) =
     (if take 3 (x # xs) = sep then [] # py_split (drop 3 (x # xs))
      else (let r = py_split xs in (x # hd r) # tl r))"
  by (subst py_split.simps) simp

lemma py_split_not_Nil: "py_split s \<noteq> []"
  by (induction s rule: py_split.induct) (subst py_split.simps, simp add: Let_def)

lemma has_sep_iff_split: "has_sep s \<longleftrightarrow> 1 < length (py_split s)"
proof (induction s rule: py_split.induct)
  case (1 s)
  show ?case
  proof (cases s)
    case Nil
    then show ?thesis by (simp add: py_split_Nil)
  next
    case (Cons x xs)
    show ?thesis
    proof (cases "take 3 s = sep")
      case True
      with Cons py_split_not_Nil [of "drop 3 s"] show ?thesis
        by (simp add: py_split_Cons)
    next
      case False
      with Cons "1.IH"(2) py_split_not_Nil [of xs] show ?thesis
        by (cases "py_split xs") (simp_all add: py_split_Cons Let_def)
    qed
  qed
qed

lemma py_join_Cons_hd:
  assumes "ps \<noteq> []"
  shows "py_join s ((x # hd ps) # tl ps) = x # py_join s ps"
proof (cases ps)
  case Nil
  with assms show ?thesis by simp
next
  case (Cons p qs)
  then show ?thesis by (cases qs) simp_all
qed

lemma py_join_split: "py_join sep (py_split s) = s"
proof (induction s rule: py_split.induct)
  case (1 s)
  show ?case
  proof (cases s)
    case Nil
    then show ?thesis by (simp add: py_split_Nil)
  next
    case (Cons x xs)
    show ?thesis
    proof (cases "take 3 s = sep")
      case True
      obtain q ps where q: "py_split (drop 3 s) = q # ps"
        using py_split_not_Nil [of "drop 3 s"] by (cases "py_split (drop 3 s)") auto
      have "py_join sep (py_split s) = sep @ py_join sep (py_split (drop 3 s))"
        using True Cons q by (simp add: py_split_Cons)
      also have "\<dots> = take 3 s @ drop 3 s"
        using True Cons "1.IH"(1) by simp
      finally show ?thesis by simp
    next
      case False
      with Cons "1.IH"(2) py_split_not_Nil [of xs] show ?thesis
        by (simp add: py_split_Cons Let_def py_join_Cons_hd)
    qed
  qed
qed

lemma length_py_strip: "length (py_strip s) \<le> length s"
proof -
  have "length (dropWhile is_space (rev (dropWhile is_space s))) \<le> length (rev (dropWhile is_space s))"
    by (rule length_dropWhile_le)
  also have "\<dots> \<le> length s"
    by (simp add: length_dropWhile_le)
  finally show ?thesis by (simp add: py_strip_def)
qed

section \<open>Reconciliation of a missing identifier\<close>

text \<open>
  C1, as the specification states it: the reconciled line for an identifier that the
  mapping lacks is identical to the original batch line. The input line
  \<^verbatim>\<open>1::: Hello\<close> refutes it: the identifier \<^verbatim>\<open>1\<close> is missing from the empty mapping and the
  reconciled line is \<^verbatim>\<open>1:::Hello\<close>, the text trimmed.
\<close>

theorem reconcile_missing_id_counterexample:
  "(Map.empty :: string \<rightharpoonup> string) (py_strip (py_split ''1::: Hello'' ! 0)) = None \<and>
   reconcile_line Map.empty ''1::: Hello'' = ''1:::Hello'' \<and>
   reconcile_line Map.empty ''1::: Hello'' \<noteq> ''1::: Hello''"
  by code_simp

text \<open>
  C1, amended: for a batch line with exactly one separator, of the form \<open>a:::b\<close>, whose
  trimmed identifier is absent from the Translation Mapping, the reconciled line is the
  trimmed identifier, the separator and the trimmed original text. It is never empty, and it
  is identical to the original batch line exactly when neither \<open>a\<close> nor \<open>b\<close> has whitespace
  at its ends.
\<close>

theorem reconcile_missing_id:
  assumes "py_split line = [a, b]" and "translated_map (py_strip a) = None"
  shows "reconcile_line translated_map line = py_strip a @ sep @ py_strip b \<and>
         reconcile_line translated_map line \<noteq> [] \<and>
         (reconcile_line translated_map line = line \<longleftrightarrow> py_strip a = a \<and> py_strip b = b)"
proof -
  have hs: "has_sep line"
    using assms(1) by (simp add: has_sep_iff_split)
  have r: "reconcile_line translated_map line = py_strip a @ sep @ py_strip b"
    using assms hs by (simp add: reconcile_line_def)
  have j: "line = a @ sep @ b"
    using py_join_split [of line] assms(1) by simp
  have "py_strip a = a \<and> py_strip b = b" if eq: "py_strip a @ sep @ py_strip b = a @ sep @ b"
  proof -
    have "length (py_strip a) + length (py_strip b) = length a + length b"
      using arg_cong [OF eq, of length] by simp
    with length_py_strip [of a] length_py_strip [of b]
    have "length (py_strip a) = length a" by linarith
    with eq show ?thesis by simp
  qed
  then show ?thesis
    using r j by (auto simp: sep_def)
qed

theorem reconcile_missing_id_witness:
  "py_split ''7:::Hello'' = [''7'', ''Hello''] \<and>
   (Map.empty :: string \<rightharpoonup> string) (py_strip ''7'') = None \<and>
   reconcile_line Map.empty ''7:::Hello'' = ''7:::Hello''"
proof -
  have h1: "py_split ''7:::Hello'' = [''7'', ''Hello'']"
    by code_simp
  have h2: "(Map.empty :: string \<rightharpoonup> string) (py_strip ''7'') = None"
    by simp
  have h3: "py_strip ''7'' = ''7'' \<and> py_strip ''Hello'' = ''Hello''"
    by code_simp
  show ?thesis
    using reconcile_missing_id [OF h1 h2] h1 h3 by (simp add: sep_def)
qed

section \<open>The fallback rule of the Response Parser\<close>

lemma digit_not_space: "is_digit c \<Longrightarrow> \<not> is_space c"
  by (auto simp: is_digit_def is_space_def)

lemma separator_plain: "c \<in> set separators \<Longrightarrow> \<not> is_digit c \<and> \<not> is_space c"
  by (auto simp: is_digit_def is_space_def separators_def)

lemma re_match_iff:
  "re_match line = Some (k, g) \<longleftrightarrow>
     (\<exists>ws c rest. line = k @ ws @ c # rest \<and> k \<noteq> [] \<and> (\<forall>d\<in>set k. is_digit d) \<and>
        (\<forall>w\<in>set ws. is_space w) \<and> c \<in> set separators \<and>
        g = takeWhile (\<lambda>x. x \<noteq> newline) (dropWhile is_space rest))"
  (is "?L \<longleftrightarrow> ?R")
proof
  assume L: ?L
  define r where "r = dropWhile is_space (dropWhile is_digit line)"
  from L have k: "k = takeWhile is_digit line" and kne: "k \<noteq> []"
    by (auto simp: re_match_def Let_def split: if_splits list.splits)
  from L obtain c r' where r: "r = c # r'" and c: "c \<in> set separators"
    and g: "g = takeWhile (\<lambda>x. x \<noteq> newline) (dropWhile is_space r')"
    by (auto simp: re_match_def Let_def r_def split: if_splits list.splits)
  define ws where "ws = takeWhile is_space (dropWhile is_digit line)"
  have "line = k @ ws @ r"
    unfolding k ws_def r_def by simp
  moreover have "\<forall>d\<in>set k. is_digit d"
    unfolding k by (auto dest: set_takeWhileD)
  moreover have "\<forall>w\<in>set ws. is_space w"
    unfolding ws_def by (auto dest: set_takeWhileD)
  ultimately show ?R
    using kne r c g by blast
next
  assume ?R
  then obtain ws c rest where line: "line = k @ ws @ c # rest" and kne: "k \<noteq> []"
    and dk: "\<forall>d\<in>set k. is_digit d" and sw: "\<forall>w\<in>set ws. is_space w"
    and c: "c \<in> set separators"
    and g: "g = takeWhile (\<lambda>x. x \<noteq> newline) (dropWhile is_space rest)"
    by blast
  have nd: "\<not> is_digit (hd (ws @ c # rest))"
    using sw c by (cases ws) (auto dest: separator_plain digit_not_space)
  have tk: "takeWhile is_digit line = k"
    unfolding line using dk nd by (cases "ws @ c # rest") simp_all
  have dk': "dropWhile is_digit line = ws @ c # rest"
    unfolding line using dk nd by (cases "ws @ c # rest") simp_all
  have ds: "dropWhile is_space (ws @ c # rest) = c # rest"
    using sw c by (simp add: separator_plain)
  show ?L
    using tk dk' ds kne c g by (simp add: re_match_def Let_def)
qed

text \<open>
  C5, as the specification states it: a payload line without \<^verbatim>\<open>:::\<close> adds an entry if and
  only if it is an integer followed by one separator from \<^verbatim>\<open>{|, :, >, ., ]}\<close>. The payload line
  \<^verbatim>\<open>1) Hello\<close> refutes it: the closing parenthesis is not in that set, and the parser
  stores the entry \<^verbatim>\<open>1\<close> \<open>\<mapsto>\<close> \<^verbatim>\<open>Hello\<close>.
\<close>

theorem fallback_entry_counterexample:
  "\<not> has_sep ''1) Hello'' \<and> line_entry ''1) Hello'' = Some (''1'', ''Hello'') \<and>
   parse_response ''1) Hello'' ''1'' = Some ''Hello'' \<and> \<not> spec_fallback ''1) Hello''"
  by code_simp

text \<open>
  C5, amended: for every payload line that does not contain \<^verbatim>\<open>:::\<close>, the Response Parser
  adds the entry \<open>k \<mapsto> v\<close> if and only if the line is the non-empty run of digits \<open>k\<close>,
  then optional whitespace, then one separator character from the set
  \<^verbatim>\<open>{|, :, >, ., ), ]}\<close>, then free text, and \<open>v\<close> is that text up to the end of the line,
  trimmed. Any other such line adds nothing; no line raises an error (\<open>line_entry\<close> is total
  and has no error value).
\<close>

theorem fallback_entry_iff:
  assumes "\<not> has_sep line"
  shows "line_entry line = Some (k, v) \<longleftrightarrow>
     (\<exists>ws c rest. line = k @ ws @ c # rest \<and> k \<noteq> [] \<and> (\<forall>d\<in>set k. is_digit d) \<and>
        (\<forall>w\<in>set ws. is_space w) \<and> c \<in> set ''|:>.)]'' \<and>
        v = py_strip (takeWhile (\<lambda>x. x \<noteq> newline) (dropWhile is_space rest)))"
proof -
  have "line_entry line = Some (k, v) \<longleftrightarrow> (\<exists>g. re_match line = Some (k, g) \<and> v = py_strip g)"
    using assms by (auto simp: line_entry_def split: option.splits)
  then show ?thesis
    unfolding re_match_iff separators_def by blast
qed

theorem fallback_entry_iff_witness:
  "\<not> has_sep ''12 ) Xin chao'' \<and> line_entry ''12 ) Xin chao'' = Some (''12'', ''Xin chao'') \<and>
   (\<exists>ws c rest. ''12 ) Xin chao'' = ''12'' @ ws @ c # rest \<and> (\<forall>w\<in>set ws. is_space w) \<and>
      c \<in> set ''|:>.)]'')"
proof -
  have h: "\<not> has_sep ''12 ) Xin chao''"
    by code_simp
  have e: "line_entry ''12 ) Xin chao'' = Some (''12'', ''Xin chao'')"
    by code_simp
  show ?thesis
    using fallback_entry_iff [OF h, of "''12''" "''Xin chao''"] h e by blast
qed

section \<open>The Partitioner\<close>

lemma py_range_step:
  "0 < d \<Longrightarrow> i < stop \<Longrightarrow> py_range i stop d = i # py_range (i + d) stop d"
  by (subst py_range.simps) simp

lemma py_range_stepone: "\<not> (0 < d \<and> i < stop) \<Longrightarrow> py_range i stop d = []"
  by (subst py_range.simps) simp

lemma py_range_bounds: "j \<in> set (py_range i stop d) \<Longrightarrow> i \<le> j \<and> j < stop"
proof (induction i stop d rule: py_range.induct)
  case (1 i stop d)
  show ?case
  proof (cases "0 < d \<and> i < stop")
    case True
    with "1.prems" have "j = i \<or> j \<in> set (py_range (i + d) stop d)"
      by (simp add: py_range_step)
    with True "1.IH" show ?thesis by auto
  next
    case False
    with "1.prems" show ?thesis by (simp add: py_range_stepone)
  qed
qed

lemma length_py_range_le:
  "0 < d \<Longrightarrow> stop \<le> i + k * d \<Longrightarrow> length (py_range i stop d) \<le> k"
proof (induction k arbitrary: i)
  case 0
  then show ?case by (simp add: py_range_stepone)
next
  case (Suc k)
  show ?case
  proof (cases "i < stop")
    case True
    have "length (py_range (i + d) stop d) \<le> k"
      using Suc.prems by (intro Suc.IH) (simp_all add: algebra_simps)
    with True Suc.prems(1) show ?thesis by (simp add: py_range_step)
  next
    case False
    then show ?thesis by (simp add: py_range_stepone)
  qed
qed

lemma concat_slices:
  "0 < cs \<Longrightarrow> concat (map (\<lambda>i. take cs (drop i xs)) (py_range i (length xs) cs)) = drop i xs"
proof (induction i "length xs" cs rule: py_range.induct)
  case (1 i cs)
  show ?case
  proof (cases "i < length xs")
    case True
    have "concat (map (\<lambda>i. take cs (drop i xs)) (py_range i (length xs) cs))
        = take cs (drop i xs) @ drop (i + cs) xs"
      using True "1.prems" "1.hyps" by (simp add: py_range_step)
    also have "\<dots> = drop i xs"
      by (metis add.commute append_take_drop_id drop_drop)
    finally show ?thesis .
  next
    case False
    then show ?thesis by (simp add: py_range_stepone)
  qed
qed

lemma slices_nonempty:
  "c \<in> set (map (\<lambda>i. take cs (drop i xs)) (py_range 0 (length xs) cs)) \<Longrightarrow> 0 < cs \<Longrightarrow> c \<noteq> []"
  by (auto dest: py_range_bounds)

lemma slices_sizes:
  "0 < cs \<Longrightarrow> ys = map (\<lambda>i. take cs (drop i xs)) (py_range i (length xs) cs) \<Longrightarrow>
   (\<forall>c\<in>set (butlast ys). length c = cs) \<and> (\<forall>c\<in>set ys. length c \<le> cs)"
proof (induction i "length xs" cs arbitrary: ys rule: py_range.induct)
  case (1 i cs)
  show ?case
  proof (cases "i < length xs")
    case True
    define zs where "zs = map (\<lambda>i. take cs (drop i xs)) (py_range (i + cs) (length xs) cs)"
    have ys: "ys = take cs (drop i xs) # zs"
      using True "1.prems" by (simp add: py_range_step zs_def)
    have ih: "(\<forall>c\<in>set (butlast zs). length c = cs) \<and> (\<forall>c\<in>set zs. length c \<le> cs)"
      using True "1.prems"(1) zs_def by (intro "1.hyps") simp_all
    have "length (take cs (drop i xs)) = cs" if "zs \<noteq> []"
    proof -
      from that have "i + cs < length xs"
        unfolding zs_def by (subst (asm) py_range.simps) (simp split: if_splits)
      then show ?thesis by simp
    qed
    with ih show ?thesis
      unfolding ys by auto
  next
    case False
    with "1.prems" show ?thesis by (simp add: py_range_stepone)
  qed
qed

lemma chunk_size_props:
  assumes "0 < t" and "1 \<le> n"
  defines "cs \<equiv> nat (py_ceil_div (int t) n)"
  shows "0 < cs \<and> int t \<le> n * int cs \<and> (int t \<le> n \<longrightarrow> cs = 1)"
proof -
  define q where "q = (- int t) div n"
  have pos: "0 < n" using assms(2) by simp
  have dm: "q * n + (- int t) mod n = - int t"
    unfolding q_def by (rule div_mult_mod_eq)
  have m: "0 \<le> (- int t) mod n" "(- int t) mod n < n"
    using pos by simp_all
  have qn: "q * n \<le> - int t" "- int t < q * n + n"
    using dm m by linarith+
  have qneg: "q < 0"
  proof (rule ccontr)
    assume "\<not> q < 0"
    then have "0 \<le> q * n" using pos by simp
    with qn(1) assms(1) show False by simp
  qed
  have cs: "int cs = - q"
    using qneg by (simp add: cs_def py_ceil_div_def q_def)
  have le: "int t \<le> n * int cs"
    using qn(1) by (simp add: cs mult.commute)
  have one: "cs = 1" if "int t \<le> n"
  proof -
    have "(- q - 1) * n < int t"
      using qn(2) by (simp add: algebra_simps)
    with that have "(- q - 1) * n < 1 * n" by simp
    then have "- q - 1 < 1"
      using pos by (simp only: mult_less_cancel_right)
    with qneg have "- q = 1" by simp
    with cs show ?thesis by simp
  qed
  from qneg cs have "0 < cs" by simp
  with le one show ?thesis by blast
qed

lemma singletons_concat: "\<forall>c\<in>set ys. length c = 1 \<Longrightarrow> ys = map (\<lambda>x. [x]) (concat ys)"
proof (induction ys)
  case Nil
  then show ?case by simp
next
  case (Cons a ys)
  then obtain x where "a = [x]"
    by (cases a) auto
  with Cons show ?case by simp
qed

lemma make_chunks_Nil: "make_chunks [] n = Inl ValueError"
  by (simp add: make_chunks_def py_ceil_div_def)

lemma make_chunks_nonempty:
  fixes dps :: "'a list" and n :: int
  assumes "dps \<noteq> []"
  defines "cs \<equiv> nat (py_ceil_div (int (length dps)) (max 1 n))"
  shows "\<exists>chunks. make_chunks dps n = Inr chunks \<and> concat chunks = dps \<and> [] \<notin> set chunks \<and>
           int (length chunks) \<le> max 1 n \<and> (\<forall>c\<in>set (butlast chunks). length c = cs) \<and>
           (\<forall>c\<in>set chunks. length c \<le> cs) \<and>
           (int (length dps) \<le> max 1 n \<longrightarrow> chunks = map (\<lambda>x. [x]) dps)"
proof -
  define ys where "ys = map (\<lambda>i. take cs (drop i dps)) (py_range 0 (length dps) cs)"
  have t: "0 < length dps" using assms(1) by simp
  have n: "1 \<le> max 1 n" by simp
  from chunk_size_props [OF t n]
  have cs: "0 < cs" and le: "int (length dps) \<le> max 1 n * int cs"
    and one: "int (length dps) \<le> max 1 n \<longrightarrow> cs = 1"
    unfolding cs_def by blast+
  have ne: "[] \<notin> set ys"
    unfolding ys_def using cs by (auto dest: py_range_bounds)
  then have f: "filter (\<lambda>c. c \<noteq> []) ys = ys"
    by (induction ys) auto
  have mc: "make_chunks dps n = Inr ys"
    using cs f by (simp add: make_chunks_def Let_def cs_def ys_def)
  have cc: "concat ys = dps"
    unfolding ys_def using concat_slices [OF cs, of dps 0] by simp
  define m where "m = max 1 n"
  have m1: "1 \<le> m"
    by (simp add: m_def)
  have le': "int (length dps) \<le> m * int cs"
    using le by (simp add: m_def)
  have eq: "m * int cs = int (nat m * cs)"
    using m1 by simp
  have "int (length dps) \<le> int (nat m * cs)"
    using le' unfolding eq .
  then have "length dps \<le> 0 + nat (max 1 n) * cs"
    unfolding m_def by (simp only: of_nat_le_iff add_0)
  from length_py_range_le [OF cs this]
  have len: "int (length ys) \<le> max 1 n"
    by (simp add: ys_def)
  have sz: "(\<forall>c\<in>set (butlast ys). length c = cs) \<and> (\<forall>c\<in>set ys. length c \<le> cs)"
    by (rule slices_sizes [OF cs ys_def])
  have single: "ys = map (\<lambda>x. [x]) dps" if "int (length dps) \<le> max 1 n"
  proof -
    from that one have c1: "cs = 1" by simp
    have "\<forall>c\<in>set ys. length c = 1"
    proof
      fix c
      assume "c \<in> set ys"
      with sz ne c1 have "length c \<le> 1" and "c \<noteq> []" by auto
      then show "length c = 1" by (cases c) auto
    qed
    then have "ys = map (\<lambda>x. [x]) (concat ys)"
      by (rule singletons_concat)
    with cc show ?thesis by simp
  qed
  show ?thesis
    using mc cc ne len sz single by blast
qed

text \<open>
  C2: the claim asks the Partitioner to end without error for every entry count \<open>T \<ge> 0\<close>.
  For \<open>T = 0\<close> (an empty input file, or a file that holds only the header line) line 645
  computes the chunk size 0 and \<^verbatim>\<open>range(0, 0, 0)\<close> at line 648 raises \<^verbatim>\<open>ValueError\<close>, for every
  thread count. For \<open>T \<ge> 1\<close> the claim holds, which is \<open>make_chunks_nonempty\<close>.
\<close>

theorem make_chunks_empty_raises:
  "make_chunks ([] :: (string \<times> nat) list) n = Inl ValueError \<and>
   start_job st [] tmp out = Inl ValueError \<and>
   start_job st [''0:::ID:::Text''] tmp out = Inl ValueError"
  by (simp add: make_chunks_Nil start_job_def data_points_def start_off_def has_header_def
        enumerate_eq_zip)

section \<open>The Translation Client\<close>




section \<open>Steps of the job\<close>

lemma set_pc_simps [simp]:
  "shared_output_lines (set_pc w p s) = shared_output_lines s"
  "stop_event (set_pc w p s) = stop_event s"
  "file_write_lock (set_pc w p s) = file_write_lock s"
  "temp_file (set_pc w p s) = temp_file s"
  "output_file (set_pc w p s) = output_file s"
  "length (workers (set_pc w p s)) = length (workers s)"
  by (simp_all add: set_pc_def)

lemma set_pc_chunks [simp]:
  "map chunk_data (workers (set_pc w p s)) = map chunk_data (workers s)"
proof (cases "w < length (workers s)")
  case True
  then have "(map chunk_data (workers s))[w := map chunk_data (workers s) ! w] = map chunk_data (workers s)"
    by (simp only: list_update_id)
  with True show ?thesis by (simp add: set_pc_def map_update)
next
  case False
  then have "(workers s)[w := (workers s ! w)\<lparr>pc := p\<rparr>] = workers s"
    by (intro list_update_beyond) simp
  then show ?thesis by (simp add: set_pc_def)
qed

lemma set_pc_nth:
  "w' < length (workers s) \<Longrightarrow>
   workers (set_pc w p s) ! w' = (if w' = w then (workers s ! w)\<lparr>pc := p\<rparr> else workers s ! w')"
  by (simp add: set_pc_def nth_list_update)

lemma set_pc_pc:
  "w' < length (workers s) \<Longrightarrow>
   pc (workers (set_pc w p s) ! w') = (if w' = w then p else pc (workers s ! w'))"
  by (simp add: set_pc_nth)

lemma set_pc_chunk:
  "chunk_data (workers (set_pc w p s) ! w') = chunk_data (workers s ! w')"
proof (cases "w' = w")
  case True
  then show ?thesis
    by (cases "w < length (workers s)") (simp_all add: set_pc_def list_update_beyond)
next
  case False
  then show ?thesis by (simp add: set_pc_def)
qed

lemma step_move: "step st s e = s \<or> move st s (step st s e)"
proof (cases e)
  case StopRequest
  then show ?thesis by (simp add: move.stop_request)
next
  case (Run w)
  show ?thesis
  proof (cases "w < length (workers s)")
    case False
    with Run show ?thesis by simp
  next
    case True
    show ?thesis
    proof (cases "pc (workers s ! w)")
      case (LoopTop i)
      with True Run show ?thesis
        by (auto simp: worker_step_def intro!: move.goto)
    next
      case (Calling i)
      with True Run show ?thesis by (simp add: worker_step_def)
    next
      case (Writing i ps)
      show ?thesis
      proof (cases ps)
        case Nil
        with Writing True Run show ?thesis
          by (auto simp: worker_step_def intro: move.lock)
      next
        case (Cons a rest)
        obtain idx v where "a = (idx, v)" by (cases a)
        with Cons Writing True Run show ?thesis
          by (auto simp: worker_step_def Let_def intro: move.store intro!: move.goto)
      qed
    next
      case (Flushing i pos)
      with True Run show ?thesis
        by (auto simp: worker_step_def Let_def intro: move.write_line move.unlock)
    qed (use True Run in \<open>simp_all add: worker_step_def\<close>)
  qed
next
  case (Call w env)
  show ?thesis
  proof (cases "w < length (workers s)")
    case False
    with Call show ?thesis by simp
  next
    case True
    show ?thesis
    proof (cases "pc (workers s ! w)")
      case (Calling i)
      let ?batch = "take (nat (batch_size st)) (drop i (chunk_data (workers s ! w)))"
      show ?thesis
      proof (cases "flag_seen env \<and> \<not> stop_event s")
        case True
        with Calling \<open>w < length (workers s)\<close> Call show ?thesis
          by (simp add: call_step_def)
      next
        case False
        show ?thesis
        proof (cases "call_api_translate (map fst ?batch) st env")
          case (Inl err)
          with False Calling \<open>w < length (workers s)\<close> Call
          have "step st s e = set_pc w (Crashed err) s"
            by (auto simp: call_step_def Let_def)
          moreover have "move st s (set_pc w (Crashed err) s)"
            using Calling \<open>w < length (workers s)\<close> by (intro move.goto) auto
          ultimately show ?thesis by simp
        next
          case (Inr tb)
          with False Calling \<open>w < length (workers s)\<close> Call
          have "step st s e = set_pc w (Writing i (zip (map snd ?batch) tb)) s"
            by (auto simp: call_step_def Let_def)
          moreover have "move st s (set_pc w (Writing i (zip (map snd ?batch) tb)) s)"
            using Calling \<open>w < length (workers s)\<close> Inr by (intro move.goto) auto
          ultimately show ?thesis by simp
        qed
      qed
    qed (use True Call in \<open>simp_all add: call_step_def\<close>)
  qed
qed

lemma run_schedule_Nil [simp]: "run_schedule st s [] = s"
  by (simp add: run_schedule_def)

lemma run_schedule_Cons [simp]: "run_schedule st s (e # evs) = run_schedule st (step st s e) evs"
  by (simp add: run_schedule_def)

lemma run_schedule_append: "run_schedule st s (xs @ ys) = run_schedule st (run_schedule st s xs) ys"
  by (simp add: run_schedule_def)

lemma run_schedule_invariant:
  assumes "P s" and "\<And>s s'. P s \<Longrightarrow> move st s s' \<Longrightarrow> P s'"
  shows "P (run_schedule st s evs)"
  using assms(1)
proof (induction evs arbitrary: s)
  case Nil
  then show ?case by simp
next
  case (Cons e evs)
  from step_move [of st s e] Cons.prems assms(2) have "P (step st s e)"
    by auto
  then show ?case by (simp add: Cons.IH)
qed

lemma move_frame:
  assumes "move st s s'"
  shows "length (workers s') = length (workers s)"
    and "map chunk_data (workers s') = map chunk_data (workers s)"
    and "output_file s' = output_file s"
    and "length (shared_output_lines s') = length (shared_output_lines s)"
  using assms by (induction rule: move.induct) simp_all

lemma move_chunk:
  assumes "move st s s'"
  shows "chunk_data (workers s' ! w) = chunk_data (workers s ! w)"
  using assms by (induction rule: move.induct) (simp_all add: set_pc_chunk)

lemma lock_inv_set_pc:
  assumes inv: "lock_inv s" and w: "w < length (workers s)" and ws: "workers s0 = workers s"
    and how: "is_flushing p = is_flushing (pc (workers s ! w)) \<and> file_write_lock s0 = file_write_lock s \<or>
              file_write_lock s = None \<and> is_flushing p \<and> file_write_lock s0 = Some w \<or>
              is_flushing (pc (workers s ! w)) \<and> \<not> is_flushing p \<and> file_write_lock s0 = None"
  shows "lock_inv (set_pc w p s0)"
  unfolding lock_inv_def
proof
  fix w'
  let ?s' = "set_pc w p s0"
  have old: "(w' < length (workers s) \<and> is_flushing (pc (workers s ! w'))) \<longleftrightarrow> file_write_lock s = Some w'"
    using inv unfolding lock_inv_def by blast
  have oldw: "is_flushing (pc (workers s ! w)) \<longleftrightarrow> file_write_lock s = Some w"
    using inv w unfolding lock_inv_def by blast
  show "(w' < length (workers ?s') \<and> is_flushing (pc (workers ?s' ! w'))) \<longleftrightarrow> file_write_lock ?s' = Some w'"
  proof (cases "w' = w")
    case True
    have "pc (workers ?s' ! w) = p"
      using w ws by (simp add: set_pc_pc)
    with True w ws how oldw show ?thesis
      by auto
  next
    case False
    have "w' < length (workers s) \<Longrightarrow> pc (workers ?s' ! w') = pc (workers s ! w')"
      using False ws by (simp add: set_pc_pc)
    with False ws how old oldw show ?thesis
      by auto
  qed
qed

lemma lock_inv_move:
  assumes "move st s s'" and "lock_inv s"
  shows "lock_inv s'"
  using assms
proof (induction rule: move.induct)
  case (stop_request s)
  then show ?case by (simp add: lock_inv_def)
next
  case (goto w s p)
  have "\<not> is_flushing p"
    using goto(3) by (auto split: pc.splits)
  with goto show ?case
    by (intro lock_inv_set_pc [where s = s]) simp_all
next
  case (store w s i idx v rest)
  then show ?case
    by (intro lock_inv_set_pc [where s = s]) simp_all
next
  case (lock w s i)
  then show ?case
    by (intro lock_inv_set_pc [where s = s]) simp_all
next
  case (write_line w s i pos)
  then show ?case
    by (intro lock_inv_set_pc [where s = s]) simp_all
next
  case (unlock w s i pos)
  then show ?case
    by (intro lock_inv_set_pc [where s = s]) simp_all
qed

lemma owns_writes_set_pc:
  assumes "owns_writes st s" and "own_ok st ((workers s ! w)\<lparr>pc := p\<rparr>)"
    and "workers s0 = workers s"
  shows "owns_writes st (set_pc w p s0)"
proof -
  have "set (workers (set_pc w p s0)) \<subseteq> insert ((workers s ! w)\<lparr>pc := p\<rparr>) (set (workers s))"
    using assms(3) by (simp add: set_pc_def set_update_subset_insert)
  with assms(1,2) show ?thesis
    unfolding owns_writes_def by blast
qed

lemma own_ok_other [simp]:
  "own_ok st (wk\<lparr>pc := LoopTop i\<rparr>)"
  "own_ok st (wk\<lparr>pc := Calling i\<rparr>)"
  "own_ok st (wk\<lparr>pc := Flushing i pos\<rparr>)"
  "own_ok st (wk\<lparr>pc := Stopped i\<rparr>)"
  "own_ok st (wk\<lparr>pc := Finished\<rparr>)"
  "own_ok st (wk\<lparr>pc := Crashed e\<rparr>)"
  by (simp_all add: own_ok_def)

lemma own_ok_zip:
  "own_ok st (wk\<lparr>pc := Writing i (zip (map snd (take (nat (batch_size st)) (drop i (chunk_data wk)))) tb)\<rparr>)"
proof -
  let ?b = "take (nat (batch_size st)) (drop i (chunk_data wk))"
  have "fst ` set (zip (map snd ?b) tb) \<subseteq> set (map snd ?b)"
    by (auto dest: set_zip_leftD)
  then have "fst ` set (zip (map snd ?b) tb) \<subseteq> snd ` set ?b"
    by simp
  then show ?thesis
    by (simp add: own_ok_def batch_of_def)
qed

lemma owns_writes_move:
  assumes "move st s s'" and "owns_writes st s"
  shows "owns_writes st s'"
  using assms
proof (induction rule: move.induct)
  case (stop_request s)
  then show ?case by (simp add: owns_writes_def)
next
  case (goto w s p)
  have "own_ok st ((workers s ! w)\<lparr>pc := p\<rparr>)"
  proof (cases "pc (workers s ! w)")
    case (LoopTop i)
    with goto(3) show ?thesis by auto
  next
    case (Calling i)
    with goto(3) show ?thesis by (auto simp: own_ok_zip)
  next
    case (Writing i ps)
    with goto(3) show ?thesis by auto
  qed (use goto(3) in simp_all)
  with goto.prems show ?case
    by (intro owns_writes_set_pc) simp_all
next
  case (store w s i idx v rest)
  from store.prems store(1,2) have "own_ok st (workers s ! w)"
    unfolding owns_writes_def by simp
  with store(2) have "own_ok st ((workers s ! w)\<lparr>pc := Writing i rest\<rparr>)"
    by (auto simp: own_ok_def batch_of_def)
  with store.prems show ?case
    by (intro owns_writes_set_pc) simp_all
next
  case (lock w s i)
  then show ?case
    by (intro owns_writes_set_pc) simp_all
next
  case (write_line w s i pos)
  then show ?case
    by (intro owns_writes_set_pc) simp_all
next
  case (unlock w s i pos)
  then show ?case
    by (intro owns_writes_set_pc) simp_all
qed

text \<open>A move changes the buffer only by a store of a worker into a slot of its batch.\<close>

lemma move_buffer:
  assumes "move st s s'" and "owns_writes st s"
  shows "shared_output_lines s' = shared_output_lines s \<or>
         (\<exists>w i idx v. w < length (workers s) \<and> idx \<in> snd ` set (batch_of st (workers s ! w) i) \<and>
            shared_output_lines s' = (shared_output_lines s)[idx := v])"
  using assms
proof (induction rule: move.induct)
  case (store w s i idx v rest)
  from store.prems store(1) have "own_ok st (workers s ! w)"
    unfolding owns_writes_def by simp
  with store(2) have "idx \<in> snd ` set (batch_of st (workers s ! w) i)"
    by (simp add: own_ok_def)
  with store(1) show ?case
    by auto
qed simp_all

lemma file_text_snoc: "file_text (vs @ [x]) = file_text vs @ x @ [newline]"
  by (simp add: file_text_def)

lemma ckpt_ok_keep:
  assumes "ckpt_ok Q tmp s" and "file_write_lock s' = file_write_lock s"
    and "temp_file s' = temp_file s"
    and "length (shared_output_lines s') = length (shared_output_lines s)"
    and "\<And>h. file_write_lock s = Some h \<Longrightarrow> pc (workers s' ! h) = pc (workers s ! h)"
  shows "ckpt_ok Q tmp s'"
  using assms unfolding ckpt_ok_def by (cases "file_write_lock s") simp_all

lemma lock_holder:
  assumes "lock_inv s" and "file_write_lock s = Some h"
  shows "h < length (workers s)" and "is_flushing (pc (workers s ! h))"
  using assms unfolding lock_inv_def by blast+

lemma lock_held:
  assumes "lock_inv s" and "w < length (workers s)" and "pc (workers s ! w) = Flushing i pos"
  shows "file_write_lock s = Some w"
proof -
  from assms(2,3) have "w < length (workers s) \<and> is_flushing (pc (workers s ! w))"
    by simp
  with assms(1) show ?thesis
    unfolding lock_inv_def by blast
qed

lemma ckpt_okI_locked:
  assumes "file_write_lock s = Some w" and "pc (workers s ! w) = Flushing i (length vs)"
    and "length vs \<le> length (shared_output_lines s)" and "temp_file s = Some (file_text vs)"
    and "\<forall>k<length vs. Q k (vs ! k)"
  shows "ckpt_ok Q tmp s"
proof -
  have "\<exists>i vs. pc (workers s ! w) = Flushing i (length vs) \<and>
                length vs \<le> length (shared_output_lines s) \<and>
                temp_file s = Some (file_text vs) \<and> (\<forall>k<length vs. Q k (vs ! k))"
    by (rule exI [of _ i], rule exI [of _ vs]) (simp add: assms(2-5))
  then show ?thesis
    unfolding ckpt_ok_def by (simp only: assms(1) option.case)
qed

lemma ckpt_okI_free:
  assumes "file_write_lock s = None" and "temp_file s = Some (file_text vs)"
    and "length vs = length (shared_output_lines s)" and "\<forall>k<length vs. Q k (vs ! k)"
  shows "ckpt_ok Q tmp s"
proof -
  have "\<exists>vs. temp_file s = Some (file_text vs) \<and> length vs = length (shared_output_lines s) \<and>
              (\<forall>k<length vs. Q k (vs ! k))"
    by (rule exI [of _ vs]) (simp add: assms(2-4))
  then show ?thesis
    unfolding ckpt_ok_def by (simp only: assms(1) option.case) simp
qed

lemma ckpt_okD_locked:
  assumes "ckpt_ok Q tmp s" and "file_write_lock s = Some w"
  shows "\<exists>i vs. pc (workers s ! w) = Flushing i (length vs) \<and>
                length vs \<le> length (shared_output_lines s) \<and>
                temp_file s = Some (file_text vs) \<and> (\<forall>k<length vs. Q k (vs ! k))"
  using assms(1) unfolding ckpt_ok_def by (simp only: assms(2) option.case)

lemma ckpt_ok_move:
  assumes "move st s s'" and "lock_inv s" and "ckpt_ok Q tmp s"
    and "\<forall>k<length (shared_output_lines s). Q k (shared_output_lines s ! k)"
  shows "ckpt_ok Q tmp s'"
  using assms
proof (induction rule: move.induct)
  case (stop_request s)
  then show ?case by (elim ckpt_ok_keep) simp_all
next
  case (goto w s p)
  show ?case
  proof (rule ckpt_ok_keep [OF goto.prems(2)])
    fix h
    assume h: "file_write_lock s = Some h"
    from lock_holder [OF goto.prems(1) h] goto(2) have "h \<noteq> w" and "h < length (workers s)"
      by auto
    then show "pc (workers (set_pc w p s) ! h) = pc (workers s ! h)"
      by (simp add: set_pc_pc)
  qed simp_all
next
  case (store w s i idx v rest)
  let ?s0 = "s\<lparr>shared_output_lines := (shared_output_lines s)[idx := v]\<rparr>"
  show ?case
  proof (rule ckpt_ok_keep [OF store.prems(2)])
    fix h
    assume h: "file_write_lock s = Some h"
    from lock_holder [OF store.prems(1) h] store(2) have "h \<noteq> w" and "h < length (workers ?s0)"
      by auto
    then show "pc (workers (set_pc w (Writing i rest) ?s0) ! h) = pc (workers s ! h)"
      by (simp add: set_pc_pc)
  qed simp_all
next
  case (lock w s i)
  let ?s' = "set_pc w (Flushing i 0) (s\<lparr>file_write_lock := Some w, temp_file := Some []\<rparr>)"
  have "pc (workers ?s' ! w) = Flushing i (length ([] :: string list))"
    using lock(1) by (simp add: set_pc_pc)
  then show ?case
    by (intro ckpt_okI_locked [where Q = Q and vs = "[]" and w = w and i = i])
       (simp_all add: file_text_def)
next
  case (write_line w s i pos)
  let ?buf = "shared_output_lines s"
  have held: "file_write_lock s = Some w"
    using write_line.prems(1) write_line(1,2) by (rule lock_held)
  from ckpt_okD_locked [OF write_line.prems(2) held] write_line(2) obtain vs where
    vs: "pos = length vs" "temp_file s = Some (file_text vs)" "\<forall>k<length vs. Q k (vs ! k)"
    by auto
  let ?vs = "vs @ [?buf ! pos]"
  let ?s' = "set_pc w (Flushing i (Suc pos))
      (s\<lparr>temp_file := Some (case_option [] id (temp_file s) @ ?buf ! pos @ [newline])\<rparr>)"
  have a: "pc (workers ?s' ! w) = Flushing i (length ?vs)"
    using write_line(1) vs(1) by (simp add: set_pc_pc)
  have b: "length ?vs \<le> length (shared_output_lines ?s')"
    using write_line(3) vs(1) by simp
  have c: "temp_file ?s' = Some (file_text ?vs)"
    using vs(2) by (simp add: file_text_snoc)
  have d: "\<forall>k<length ?vs. Q k (?vs ! k)"
  proof (intro allI impI)
    fix k
    assume "k < length ?vs"
    then consider "k < length vs" | "k = pos"
      using vs(1) by (auto simp: less_Suc_eq)
    then show "Q k (?vs ! k)"
    proof cases
      case 1
      with vs(3) show ?thesis by (simp add: nth_append)
    next
      case 2
      with write_line.prems(3) write_line(3) vs(1) show ?thesis by (simp add: nth_append)
    qed
  qed
  have e: "file_write_lock ?s' = Some w"
    using held by simp
  show ?case
    by (rule ckpt_okI_locked [where Q = Q, OF e a b c d])
next
  case (unlock w s i pos)
  have held: "file_write_lock s = Some w"
    using unlock.prems(1) unlock(1,2) by (rule lock_held)
  from ckpt_okD_locked [OF unlock.prems(2) held] unlock(2) obtain vs where
    vs: "pos = length vs" "length vs \<le> length (shared_output_lines s)"
      "temp_file s = Some (file_text vs)" "\<forall>k<length vs. Q k (vs ! k)"
    by auto
  with unlock(3) have len: "length vs = length (shared_output_lines s)"
    by simp
  show ?case
    by (rule ckpt_okI_free [where vs = vs and Q = Q]) (use vs len in simp_all)
qed

lemma move_slot_frozen:
  assumes "move st s s'" and "owns_writes st s"
    and "\<forall>w<length (workers s). k \<notin> snd ` set (chunk_data (workers s ! w))"
  shows "shared_output_lines s' ! k = shared_output_lines s ! k"
proof -
  from move_buffer [OF assms(1,2)] consider
    "shared_output_lines s' = shared_output_lines s"
    | w i idx v where "w < length (workers s)" "idx \<in> snd ` set (batch_of st (workers s ! w) i)"
      "shared_output_lines s' = (shared_output_lines s)[idx := v]"
    by blast
  then show ?thesis
  proof cases
    case 1
    then show ?thesis by simp
  next
    case 2
    have "set (batch_of st (workers s ! w) i) \<subseteq> set (chunk_data (workers s ! w))"
      unfolding batch_of_def by (meson set_take_subset set_drop_subset subset_trans)
    with 2(1,2) assms(3) have "idx \<noteq> k"
      by blast
    with 2(3) show ?thesis by simp
  qed
qed

lemma step_frame:
  "length (workers (step st s e)) = length (workers s) \<and>
   output_file (step st s e) = output_file s \<and>
   (stop_event (step st s e) \<longleftrightarrow> stop_event s \<or> e = StopRequest)"
  by (cases e)
     (auto simp: worker_step_def call_step_def Let_def
           split: pc.splits list.splits sum.splits prod.splits)

lemma run_schedule_stop:
  "stop_event (run_schedule st s evs) \<longleftrightarrow> stop_event s \<or> StopRequest \<in> set evs"
  by (induction evs arbitrary: s) (auto simp: step_frame)

lemma run_schedule_output: "output_file (run_schedule st s evs) = output_file s"
  by (induction evs arbitrary: s) (simp_all add: step_frame)

lemma start_job_Inr:
  assumes "start_job st raw tmp out = Inr s0"
  shows "shared_output_lines s0 = init_output raw" and "stop_event s0 = False"
    and "file_write_lock s0 = None" and "temp_file s0 = tmp" and "output_file s0 = out"
    and "concat (map chunk_data (workers s0)) = data_points raw"
    and "\<forall>wk\<in>set (workers s0). pc wk = LoopTop 0"
proof -
  from assms obtain chunks where mc: "make_chunks (data_points raw) (threads st) = Inr chunks"
    and s0: "s0 = \<lparr>shared_output_lines = init_output raw, stop_event = False,
               file_write_lock = None, temp_file = tmp, output_file = out,
               workers = map (\<lambda>c. \<lparr>chunk_data = c, pc = LoopTop 0\<rparr>) chunks\<rparr>"
    by (auto simp: start_job_def split: sum.splits)
  from mc have "data_points raw \<noteq> []"
    by (auto simp: make_chunks_Nil)
  from make_chunks_nonempty [OF this, of "threads st"] mc have cc: "concat chunks = data_points raw"
    by auto
  show "shared_output_lines s0 = init_output raw" "stop_event s0 = False"
    "file_write_lock s0 = None" "temp_file s0 = tmp" "output_file s0 = out"
    "\<forall>wk\<in>set (workers s0). pc wk = LoopTop 0"
    by (auto simp: s0)
  have "map chunk_data (workers s0) = chunks"
    by (simp add: s0 comp_def)
  with cc show "concat (map chunk_data (workers s0)) = data_points raw"
    by simp
qed

lemma start_job_invs:
  assumes "start_job st raw tmp out = Inr s0"
  shows "lock_inv s0" and "owns_writes st s0" and "ckpt_ok Q tmp s0"
proof -
  note s = start_job_Inr [OF assms]
  have top: "pc (workers s0 ! w) = LoopTop 0" if "w < length (workers s0)" for w
    using s(7) that by simp
  show "lock_inv s0"
    unfolding lock_inv_def using s(3) top by auto
  show "owns_writes st s0"
    unfolding owns_writes_def own_ok_def using s(7) by simp
  show "ckpt_ok Q tmp s0"
    unfolding ckpt_ok_def using s(3,4) by simp
qed

lemma data_points_mem:
  assumes "x \<in> set (data_points raw)"
  shows "start_off raw \<le> snd x \<and> snd x < length raw \<and> fst x = raw ! snd x"
proof -
  from assms obtain i line where il: "(i, line) \<in> set (enumerate 0 (drop (start_off raw) raw))"
    and x: "x = (line, start_off raw + i)"
    by (auto simp: data_points_def)
  from il have "i < length raw - start_off raw" and "line = drop (start_off raw) raw ! i"
    by (auto simp: in_set_enumerate_eq)
  with x show ?thesis
    by (simp add: less_diff_conv add.commute)
qed

lemma chunk_mem:
  assumes "start_job st raw tmp out = Inr s0" and "wk \<in> set (workers s0)" and "x \<in> set (chunk_data wk)"
  shows "x \<in> set (data_points raw)"
proof -
  from assms(2,3) have "x \<in> set (concat (map chunk_data (workers s0)))"
    by auto
  then show ?thesis
    by (simp only: start_job_Inr(6) [OF assms(1)])
qed

lemma header_split:
  assumes "take 4 l = ''0:::''"
  shows "has_sep l" and "py_split l ! 0 = ''0''"
proof -
  from assms obtain r where l: "l = ''0:::'' @ r"
    by (metis append_take_drop_id)
  show "has_sep l"
    by (simp add: l sep_def)
  show "py_split l ! 0 = ''0''"
    by (simp add: l py_split_Cons sep_def)
qed

lemma init_output_header:
  assumes "has_header raw"
  shows "init_output raw ! 0 = ''0:::''" and "0 < length (init_output raw)"
proof -
  from assms obtain l ls where raw: "raw = l # ls" and l: "take 4 l = ''0:::''"
    by (cases raw) (auto simp: has_header_def)
  have "py_strip ''0'' = ''0''"
    by (simp add: py_strip_def is_space_def)
  with header_split [OF l] show "init_output raw ! 0 = ''0:::''"
    by (simp add: init_output_def raw sep_def)
  show "0 < length (init_output raw)"
    by (simp add: init_output_def raw)
qed

lemma file_text_Cons: "file_text (v # vs) = v @ newline # file_text vs"
  by (simp add: file_text_def)

lemma header_invariant:
  assumes h: "has_header raw" and st: "start_job st raw tmp out = Inr s0"
  defines "J \<equiv> \<lambda>s. lock_inv s \<and> owns_writes st s \<and>
      map chunk_data (workers s) = map chunk_data (workers s0) \<and>
      0 < length (shared_output_lines s) \<and> shared_output_lines s ! 0 = ''0:::'' \<and>
      ckpt_ok header_line tmp s"
  shows "J (run_schedule st s0 evs)"
proof (rule run_schedule_invariant)
  show "J s0"
    unfolding J_def
    using start_job_invs [OF st] start_job_Inr(1) [OF st] init_output_header [OF h] by simp
next
  fix s s'
  assume J: "J s" and m: "move st s s'"
  have chunks: "map chunk_data (workers s') = map chunk_data (workers s0)"
    using J move_frame(2) [OF m] by (simp add: J_def)
  have pos: "0 \<notin> snd ` set (chunk_data (workers s ! w))" if "w < length (workers s)" for w
  proof
    assume "0 \<in> snd ` set (chunk_data (workers s ! w))"
    then obtain x where x: "x \<in> set (chunk_data (workers s ! w))" and z: "snd x = 0"
      by auto
    have "chunk_data (workers s ! w) = map chunk_data (workers s) ! w"
      using that by simp
    also have "\<dots> = chunk_data (workers s0 ! w)"
      using J that by (metis J_def length_map nth_map)
    finally have "x \<in> set (chunk_data (workers s0 ! w))"
      using x by simp
    moreover have "workers s0 ! w \<in> set (workers s0)"
      using J that by (metis J_def length_map nth_mem)
    ultimately have "x \<in> set (data_points raw)"
      using chunk_mem [OF st] by blast
    from data_points_mem [OF this] z h show False
      by (simp add: start_off_def)
  qed
  have slot: "shared_output_lines s' ! 0 = ''0:::''"
    using move_slot_frozen [OF m, of 0] J pos by (simp add: J_def)
  have len: "0 < length (shared_output_lines s')"
    using move_frame(4) [OF m] J by (simp add: J_def)
  have q: "\<forall>k<length (shared_output_lines s). header_line k (shared_output_lines s ! k)"
    using J by (simp add: J_def header_line_def)
  have "lock_inv s" and "ckpt_ok header_line tmp s"
    using J by (simp_all add: J_def)
  then have "ckpt_ok header_line tmp s'"
    using q by (rule ckpt_ok_move [where Q = header_line, OF m])
  with chunks slot len lock_inv_move [OF m] owns_writes_move [OF m] J show "J s'"
    by (simp add: J_def)
qed

lemma header_checkpoint:
  assumes "ckpt_ok header_line tmp s" and "file_write_lock s = None"
    and "0 < length (shared_output_lines s)"
  shows "temp_file s = tmp \<or> (\<exists>rest. temp_file s = Some (''0:::'' @ newline # rest))"
proof (cases "temp_file s = tmp")
  case True
  then show ?thesis ..
next
  case False
  with assms(1,2) obtain vs where vs: "temp_file s = Some (file_text vs)"
    "length vs = length (shared_output_lines s)" "\<forall>k<length vs. header_line k (vs ! k)"
    unfolding ckpt_ok_def by auto
  with assms(3) obtain v vs' where c: "vs = v # vs'"
    by (cases vs) auto
  with vs(3) have "v = ''0:::''"
    by (auto simp: header_line_def)
  with vs(1) c have "temp_file s = Some (''0:::'' @ newline # file_text vs')"
    by (simp add: file_text_Cons)
  then show ?thesis by blast
qed

lemma all_joined_unlocked:
  assumes "lock_inv s" and "all_joined s"
  shows "file_write_lock s = None"
proof (cases "file_write_lock s")
  case None
  then show ?thesis .
next
  case (Some h)
  from lock_holder [OF assms(1) Some] have "h < length (workers s)" and f: "is_flushing (pc (workers s ! h))"
    by auto
  with assms(2) have "ended (pc (workers s ! h))"
    by (simp add: all_joined_def list_all_length)
  with f show ?thesis
    by (cases "pc (workers s ! h)") simp_all
qed

lemma finalize_output:
  "\<not> stop_event s \<Longrightarrow> output_file (fst (finalize s)) = temp_file s"
  by (simp add: finalize_def split: option.splits)






section \<open>Passthrough lines\<close>

text \<open>
  C4: an input line without \<^verbatim>\<open>:::\<close> is to keep its raw text in the Output Buffer. The
  slot is initialised to the raw line, but the line is also put into the data points, sent
  with its batch, and reconciled like every other line: line 180 takes the whole line as
  its identifier and line 182 stores \<^verbatim>\<open>identifier:::text\<close>. With the input lines
  \<^verbatim>\<open>1:::Hello\<close> and \<^verbatim>\<open># note\<close>, one worker and a successful response, the slot of the second
  line ends as \<^verbatim>\<open># note:::# note\<close>.
\<close>

theorem passthrough_line_rewritten:
  "\<not> has_sep ''# note'' \<and>
   start_job \<lparr>threads = 1, batch_size = 50, stream = False, top_k = Some (PyInt (- 1))\<rparr>
     [''1:::Hello'', ''# note''] None None
   = Inr \<lparr>shared_output_lines = [''1:::'', ''# note''], stop_event = False,
          file_write_lock = None, temp_file = None, output_file = None,
          workers = [\<lparr>chunk_data = [(''1:::Hello'', 0), (''# note'', 1)], pc = LoopTop 0\<rparr>]\<rparr> \<and>
   call_api_translate [''1:::Hello'', ''# note'']
     \<lparr>threads = 1, batch_size = 50, stream = False, top_k = Some (PyInt (- 1))\<rparr>
     \<lparr>stop_at_entry = False,
      post = Some \<lparr>status_code = 200, iter_lines = [], json_content = Some ''1:::Xin chao''\<rparr>\<rparr>
   = Inr [''1:::Xin chao'', ''# note:::# note''] \<and>
   run_schedule \<lparr>threads = 1, batch_size = 50, stream = False, top_k = Some (PyInt (- 1))\<rparr>
     \<lparr>shared_output_lines = [''1:::'', ''# note''], stop_event = False,
      file_write_lock = None, temp_file = None, output_file = None,
      workers = [\<lparr>chunk_data = [(''1:::Hello'', 0), (''# note'', 1)], pc = LoopTop 0\<rparr>]\<rparr>
     [Run 0,
      Call 0 \<lparr>stop_at_entry = False,
              post = Some \<lparr>status_code = 200, iter_lines = [],
                           json_content = Some ''1:::Xin chao''\<rparr>\<rparr>,
      Run 0, Run 0, Run 0, Run 0, Run 0, Run 0, Run 0]
   = \<lparr>shared_output_lines = [''1:::Xin chao'', ''# note:::# note''], stop_event = False,
      file_write_lock = None, temp_file = Some ''1:::Xin chao\<newline># note:::# note\<newline>'',
      output_file = None,
      workers = [\<lparr>chunk_data = [(''1:::Hello'', 0), (''# note'', 1)], pc = Finished\<rparr>]\<rparr>"
  by code_simp

section \<open>Cancellation\<close>

text \<open>
  C6, as the specification states it: once the flag is set no worker writes a translated
  value into a slot it had not completed before. A worker is in its call when the stop
  request arrives; the call had found the flag clear at its entry and before the first
  frame of the stream, and finds it set before the second frame. It leaves the stream,
  parses what it has, and the worker then stores the translation of line 1 and the original
  text of line 2 into slots that held their placeholders when the flag was set.
\<close>

theorem cancellation_counterexample:
  "start_job \<lparr>threads = 1, batch_size = 2, stream = True, top_k = Some (PyInt (- 1))\<rparr>
     [''1:::Hello'', ''2:::World''] None None
   = Inr \<lparr>shared_output_lines = [''1:::'', ''2:::''], stop_event = False,
          file_write_lock = None, temp_file = None, output_file = None,
          workers = [\<lparr>chunk_data = [(''1:::Hello'', 0), (''2:::World'', 1)], pc = LoopTop 0\<rparr>]\<rparr> \<and>
   run_schedule \<lparr>threads = 1, batch_size = 2, stream = True, top_k = Some (PyInt (- 1))\<rparr>
     \<lparr>shared_output_lines = [''1:::'', ''2:::''], stop_event = False,
      file_write_lock = None, temp_file = None, output_file = None,
      workers = [\<lparr>chunk_data = [(''1:::Hello'', 0), (''2:::World'', 1)], pc = LoopTop 0\<rparr>]\<rparr>
     [Run 0, StopRequest]
   = \<lparr>shared_output_lines = [''1:::'', ''2:::''], stop_event = True,
      file_write_lock = None, temp_file = None, output_file = None,
      workers = [\<lparr>chunk_data = [(''1:::Hello'', 0), (''2:::World'', 1)], pc = Calling 0\<rparr>]\<rparr> \<and>
   run_schedule \<lparr>threads = 1, batch_size = 2, stream = True, top_k = Some (PyInt (- 1))\<rparr>
     \<lparr>shared_output_lines = [''1:::'', ''2:::''], stop_event = True,
      file_write_lock = None, temp_file = None, output_file = None,
      workers = [\<lparr>chunk_data = [(''1:::Hello'', 0), (''2:::World'', 1)], pc = Calling 0\<rparr>]\<rparr>
     [Call 0 \<lparr>stop_at_entry = False,
              post = Some \<lparr>status_code = 200,
                           iter_lines = [Got False (Delta ''1:::Xin chao''),
                                         Got True (Delta ''\<newline>2:::The gioi'')],
                           json_content = None\<rparr>\<rparr>,
      Run 0, Run 0]
   = \<lparr>shared_output_lines = [''1:::Xin chao'', ''2:::World''], stop_event = True,
      file_write_lock = None, temp_file = None, output_file = None,
      workers = [\<lparr>chunk_data = [(''1:::Hello'', 0), (''2:::World'', 1)], pc = Writing 0 []\<rparr>]\<rparr>"
  by code_simp

section \<open>The Checkpoint Writer\<close>


lemma flush_steps:
  assumes "n = length (shared_output_lines s) - pos" and "w < length (workers s)"
    and "pc (workers s ! w) = Flushing i pos" and "pos \<le> length (shared_output_lines s)"
    and "temp_file s = Some t"
  shows "temp_file (run_schedule st s (replicate (Suc n) (Run w)))
           = Some (t @ file_text (drop pos (shared_output_lines s))) \<and>
         shared_output_lines (run_schedule st s (replicate (Suc n) (Run w))) = shared_output_lines s \<and>
         file_write_lock (run_schedule st s (replicate (Suc n) (Run w))) = None \<and>
         pc (workers (run_schedule st s (replicate (Suc n) (Run w))) ! w)
           = LoopTop (i + nat (batch_size st))"
  using assms
proof (induction n arbitrary: s pos t)
  case 0
  then have "\<not> pos < length (shared_output_lines s)"
    by simp
  with 0 show ?case
    by (simp add: worker_step_def Let_def set_pc_pc file_text_def)
next
  case (Suc n)
  let ?buf = "shared_output_lines s"
  let ?s1 = "set_pc w (Flushing i (Suc pos)) (s\<lparr>temp_file := Some (t @ ?buf ! pos @ [newline])\<rparr>)"
  let ?run = "run_schedule st ?s1 (replicate (Suc n) (Run w))"
  from Suc.prems have lt: "pos < length ?buf"
    by simp
  have s1: "step st s (Run w) = ?s1"
    using Suc.prems lt by (simp add: worker_step_def Let_def)
  have r: "run_schedule st s (replicate (Suc (Suc n)) (Run w)) = ?run"
    by (subst replicate.simps(2)) (simp only: run_schedule_Cons s1)
  have sl: "shared_output_lines ?s1 = ?buf"
    by simp
  have "n = length (shared_output_lines ?s1) - Suc pos" and "w < length (workers ?s1)"
    and "pc (workers ?s1 ! w) = Flushing i (Suc pos)"
    and "Suc pos \<le> length (shared_output_lines ?s1)"
    and "temp_file ?s1 = Some (t @ ?buf ! pos @ [newline])"
    using Suc.prems lt by (simp_all add: set_pc_pc)
  from Suc.IH [OF this]
  have ih: "temp_file ?run = Some ((t @ ?buf ! pos @ [newline]) @ file_text (drop (Suc pos) ?buf))"
    "shared_output_lines ?run = ?buf" "file_write_lock ?run = None"
    "pc (workers ?run ! w) = LoopTop (i + nat (batch_size st))"
    by (simp_all only: sl)
  have d: "(t @ ?buf ! pos @ [newline]) @ file_text (drop (Suc pos) ?buf) = t @ file_text (drop pos ?buf)"
    using lt by (simp add: file_text_def flip: Cons_nth_drop_Suc)
  show ?case
    unfolding r using ih(2-4) ih(1) [unfolded d] by (intro conjI)
qed

lemma flush_uninterrupted:
  assumes "w < length (workers s)" and "pc (workers s ! w) = Writing i []"
    and "file_write_lock s = None"
  shows "temp_file (run_schedule st s (replicate (length (shared_output_lines s) + 2) (Run w)))
           = Some (file_text (shared_output_lines s)) \<and>
         shared_output_lines (run_schedule st s (replicate (length (shared_output_lines s) + 2) (Run w)))
           = shared_output_lines s \<and>
         file_write_lock (run_schedule st s (replicate (length (shared_output_lines s) + 2) (Run w))) = None"
proof -
  let ?n = "length (shared_output_lines s)"
  let ?s1 = "set_pc w (Flushing i 0) (s\<lparr>file_write_lock := Some w, temp_file := Some []\<rparr>)"
  have s1: "step st s (Run w) = ?s1"
    using assms by (simp add: worker_step_def Let_def)
  have "?n + 2 = Suc (Suc ?n)"
    by simp
  then have r: "run_schedule st s (replicate (?n + 2) (Run w))
                = run_schedule st ?s1 (replicate (Suc ?n) (Run w))"
    by (simp only:, subst replicate.simps(2)) (simp only: run_schedule_Cons s1)
  have sl: "shared_output_lines ?s1 = shared_output_lines s"
    by simp
  have "?n = length (shared_output_lines ?s1) - 0" and "w < length (workers ?s1)"
    and "pc (workers ?s1 ! w) = Flushing i 0" and "0 \<le> length (shared_output_lines ?s1)"
    and "temp_file ?s1 = Some []"
    using assms(1) by (simp_all add: set_pc_pc)
  from flush_steps [OF this, of st]
  show ?thesis
    by (simp only: r sl append_Nil drop_0)
qed

lemma set_py_strip: "set (py_strip s) \<subseteq> set s"
proof -
  have "set (dropWhile is_space (rev (dropWhile is_space s))) \<subseteq> set (rev (dropWhile is_space s))"
    by (rule set_dropWhileD [THEN subsetI])
  also have "\<dots> \<subseteq> set s"
    by (auto dest: set_dropWhileD)
  finally show ?thesis by (simp add: py_strip_def)
qed

lemma set_py_split: "p \<in> set (py_split s) \<Longrightarrow> set p \<subseteq> set s"
proof (induction s arbitrary: p rule: py_split.induct)
  case (1 s)
  show ?case
  proof (cases s)
    case Nil
    with "1.prems" show ?thesis by (simp add: py_split_Nil)
  next
    case (Cons x xs)
    show ?thesis
    proof (cases "take 3 s = sep")
      case True
      with Cons "1.prems" have "p = [] \<or> p \<in> set (py_split (drop 3 s))"
        by (simp add: py_split_Cons)
      then show ?thesis
      proof
        assume "p = []"
        then show ?thesis by simp
      next
        assume "p \<in> set (py_split (drop 3 s))"
        with "1.IH"(1) True Cons have "set p \<subseteq> set (drop 3 s)"
          by simp
        then show ?thesis
          by (meson set_drop_subset subset_trans)
      qed
    next
      case False
      obtain q qs where r: "py_split xs = q # qs"
        using py_split_not_Nil [of xs] by (cases "py_split xs") auto
      with False Cons "1.prems" have "p = x # q \<or> p \<in> set qs"
        by (simp add: py_split_Cons Let_def)
      moreover have "set q \<subseteq> set xs" and "\<And>p'. p' \<in> set qs \<Longrightarrow> set p' \<subseteq> set xs"
        using "1.IH"(2) False Cons r by simp_all
      ultimately show ?thesis
        using Cons by auto
    qed
  qed
qed

lemma py_split1_not_Nil: "py_split1 s \<noteq> []"
  by (induction s) (simp_all add: Let_def)

lemma set_py_split1: "p \<in> set (py_split1 s) \<Longrightarrow> set p \<subseteq> set s"
proof (induction s arbitrary: p)
  case Nil
  then show ?case by simp
next
  case (Cons x xs)
  show ?case
  proof (cases "take 3 (x # xs) = sep")
    case True
    with Cons.prems have "p = [] \<or> p = drop 3 (x # xs)"
      by simp
    then show ?thesis
      by (auto dest: in_set_dropD)
  next
    case False
    obtain q qs where r: "py_split1 xs = q # qs"
      using py_split1_not_Nil [of xs] by (cases "py_split1 xs") auto
    with False Cons.prems have "p = x # q \<or> p \<in> set qs"
      by (simp add: Let_def)
    moreover have "set q \<subseteq> set xs" and "\<And>p'. p' \<in> set qs \<Longrightarrow> set p' \<subseteq> set xs"
      using Cons.IH r by simp_all
    ultimately show ?thesis
      by auto
  qed
qed

lemma split_lines_not_Nil: "split_lines s \<noteq> []"
  by (induction s) (simp_all add: Let_def)

lemma split_lines_clean: "l \<in> set (split_lines s) \<Longrightarrow> no_newline l"
proof (induction s arbitrary: l)
  case Nil
  then show ?case by (simp add: no_newline_def)
next
  case (Cons x xs)
  show ?case
  proof (cases "x = newline")
    case True
    with Cons show ?thesis by (auto simp: no_newline_def)
  next
    case False
    obtain q qs where r: "split_lines xs = q # qs"
      using split_lines_not_Nil [of xs] by (cases "split_lines xs") auto
    with False Cons.prems have "l = x # q \<or> l \<in> set qs"
      by (simp add: Let_def)
    moreover have "no_newline q" and "\<And>l'. l' \<in> set qs \<Longrightarrow> no_newline l'"
      using Cons.IH r by simp_all
    ultimately show ?thesis
      using False by (auto simp: no_newline_def)
  qed
qed

lemma line_entry_clean:
  assumes "line_entry line = Some (k, v)" and "no_newline line"
  shows "no_newline v"
proof (cases "has_sep line")
  case True
  with assms(1) have v: "v = py_strip (py_split1 line ! 1)"
    by (simp add: line_entry_def Let_def)
  have "1 < length (py_split1 line)"
    using True by (induction line) (auto simp: Let_def)
  then have "py_split1 line ! 1 \<in> set (py_split1 line)"
    by simp
  from set_py_split1 [OF this] set_py_strip [of "py_split1 line ! 1"] assms(2) show ?thesis
    unfolding v no_newline_def by blast
next
  case False
  with assms(1) obtain g where "re_match line = Some (k, g)" and v: "v = py_strip g"
    by (auto simp: line_entry_def split: option.splits)
  then obtain r where "g = takeWhile (\<lambda>c. c \<noteq> newline) r"
    by (auto simp: re_match_def Let_def split: if_splits list.splits)
  then have "newline \<notin> set g"
    by (auto dest: set_takeWhileD)
  with set_py_strip [of g] show ?thesis
    unfolding v no_newline_def by blast
qed

lemma parse_fold_clean:
  assumes "\<forall>l\<in>set ls. no_newline l" and "\<forall>k v. m k = Some v \<longrightarrow> no_newline v"
    and "fold (\<lambda>line m. case line_entry line of Some (k, v) \<Rightarrow> m(k \<mapsto> v) | None \<Rightarrow> m) ls m k = Some v"
  shows "no_newline v"
  using assms
proof (induction ls arbitrary: m)
  case Nil
  then show ?case by simp
next
  case (Cons l ls)
  let ?m = "case line_entry l of Some (k, v) \<Rightarrow> m(k \<mapsto> v) | None \<Rightarrow> m"
  have "\<forall>k v. ?m k = Some v \<longrightarrow> no_newline v"
  proof (cases "line_entry l")
    case None
    with Cons.prems(2) show ?thesis by simp
  next
    case (Some e)
    obtain k' v' where e: "e = (k', v')" by (cases e)
    from line_entry_clean [of l k' v'] Some e Cons.prems(1) have "no_newline v'"
      by simp
    with Some e Cons.prems(2) show ?thesis
      by (auto split: if_splits)
  qed
  with Cons.IH [of ?m] Cons.prems(1,3) show ?case
    by simp
qed

lemma parse_response_clean: "parse_response c k = Some v \<Longrightarrow> no_newline v"
  unfolding parse_response_def
  by (rule parse_fold_clean [where m = Map.empty]) (auto intro: split_lines_clean)

lemma reconcile_line_clean:
  assumes "no_newline line" and "\<forall>k v. m k = Some v \<longrightarrow> no_newline v"
  shows "no_newline (reconcile_line m line)"
proof -
  have p0: "py_split line ! 0 \<in> set (py_split line)"
    using py_split_not_Nil [of line] by simp
  have id: "no_newline (py_strip (py_split line ! 0))"
    using set_py_split [OF p0] set_py_strip [of "py_split line ! 0"] assms(1)
    unfolding no_newline_def by blast
  have d: "no_newline (if has_sep line then py_strip (py_split line ! 1) else line)"
  proof (cases "has_sep line")
    case True
    then have "py_split line ! 1 \<in> set (py_split line)"
      by (simp add: has_sep_iff_split)
    from set_py_split [OF this] set_py_strip [of "py_split line ! 1"] assms(1) True show ?thesis
      unfolding no_newline_def by auto
  next
    case False
    with assms(1) show ?thesis by simp
  qed
  have s: "no_newline sep"
    by (simp add: no_newline_def sep_def newline_def)
  show ?thesis
    using id d s assms(2)
    by (auto simp: reconcile_line_def Let_def no_newline_def split: option.splits)
qed

lemma call_api_translate_clean:
  assumes "call_api_translate batch_lines st env = Inr tb" and "\<forall>l\<in>set batch_lines. no_newline l"
  shows "\<forall>r\<in>set tb. no_newline r"
proof -
  from assms(1) consider "tb = batch_lines"
    | c where "tb = reconcile (parse_response c) batch_lines"
    by (auto simp: call_api_translate_def split: if_splits sum.splits option.splits)
  then show ?thesis
  proof cases
    case 1
    with assms(2) show ?thesis by simp
  next
    case 2
    have "\<forall>k v. parse_response c k = Some v \<longrightarrow> no_newline v"
      by (auto intro: parse_response_clean)
    with assms(2) 2 show ?thesis
      by (auto simp: reconcile_def intro: reconcile_line_clean)
  qed
qed

lemma lines_clean_set_pc:
  assumes "\<forall>wk\<in>set (workers s). clean_ok wk" and "clean_ok ((workers s ! w)\<lparr>pc := p\<rparr>)"
    and "workers t = workers s"
  shows "\<forall>wk\<in>set (workers (set_pc w p t)). clean_ok wk"
proof -
  have "set (workers (set_pc w p t)) \<subseteq> insert ((workers s ! w)\<lparr>pc := p\<rparr>) (set (workers s))"
    using assms(3) by (simp add: set_pc_def set_update_subset_insert)
  with assms(1,2) show ?thesis
    by blast
qed

lemma clean_ok_other:
  assumes "clean_ok wk"
  shows "clean_ok (wk\<lparr>pc := LoopTop i\<rparr>)" "clean_ok (wk\<lparr>pc := Calling i\<rparr>)"
    "clean_ok (wk\<lparr>pc := Flushing i pos\<rparr>)" "clean_ok (wk\<lparr>pc := Stopped i\<rparr>)"
    "clean_ok (wk\<lparr>pc := Finished\<rparr>)" "clean_ok (wk\<lparr>pc := Crashed e\<rparr>)"
  using assms by (simp_all add: clean_ok_def)

lemma clean_ok_zip:
  assumes "clean_ok wk"
    and "call_api_translate (map fst (take n (drop i (chunk_data wk)))) st env = Inr tb"
  shows "clean_ok (wk\<lparr>pc := Writing i (zip (map snd (take n (drop i (chunk_data wk)))) tb)\<rparr>)"
proof -
  have "\<forall>l\<in>set (map fst (take n (drop i (chunk_data wk)))). no_newline l"
    using assms(1) by (auto simp: clean_ok_def dest!: in_set_takeD in_set_dropD)
  from call_api_translate_clean [OF assms(2) this]
  have "\<forall>x\<in>set (zip (map snd (take n (drop i (chunk_data wk)))) tb). no_newline (snd x)"
    by (auto dest: set_zip_rightD)
  with assms(1) show ?thesis
    by (simp add: clean_ok_def)
qed

lemma lines_clean_move:
  assumes "move st s s'" and "lines_clean s"
  shows "lines_clean s'"
  using assms
proof (induction rule: move.induct)
  case (stop_request s)
  then show ?case by (simp add: lines_clean_def)
next
  case (goto w s p)
  from goto.prems goto(1) have cw: "clean_ok (workers s ! w)"
    by (simp add: lines_clean_def)
  have "clean_ok ((workers s ! w)\<lparr>pc := p\<rparr>)"
  proof (cases "pc (workers s ! w)")
    case (LoopTop i)
    with goto(3) cw show ?thesis by (auto simp: clean_ok_other)
  next
    case (Calling i)
    with goto(3) cw show ?thesis by (auto simp: clean_ok_other clean_ok_zip)
  next
    case (Writing i ps)
    with goto(3) cw show ?thesis by (auto simp: clean_ok_other)
  qed (use goto(3) in simp_all)
  with goto.prems lines_clean_set_pc [where s = s and w = w and p = p and t = s] show ?case
    by (simp add: lines_clean_def)
next
  case (store w s i idx v rest)
  let ?s0 = "s\<lparr>shared_output_lines := (shared_output_lines s)[idx := v]\<rparr>"
  from store.prems store(1) have cw: "clean_ok (workers s ! w)"
    by (simp add: lines_clean_def)
  with store(2) have v: "no_newline v" and c: "clean_ok ((workers s ! w)\<lparr>pc := Writing i rest\<rparr>)"
    by (simp_all add: clean_ok_def)
  have "set ((shared_output_lines s)[idx := v]) \<subseteq> insert v (set (shared_output_lines s))"
    by (rule set_update_subset_insert)
  with v store.prems have "\<forall>x\<in>set ((shared_output_lines s)[idx := v]). no_newline x"
    by (auto simp: lines_clean_def)
  moreover have "\<forall>wk\<in>set (workers (set_pc w (Writing i rest) ?s0)). clean_ok wk"
    using store.prems c by (intro lines_clean_set_pc [where s = s]) (simp_all add: lines_clean_def)
  ultimately show ?case
    by (simp add: lines_clean_def)
next
  case (lock w s i)
  let ?s0 = "s\<lparr>file_write_lock := Some w, temp_file := Some []\<rparr>"
  from lock.prems lock(1) have "clean_ok (workers s ! w)"
    by (simp add: lines_clean_def)
  then have "\<forall>wk\<in>set (workers (set_pc w (Flushing i 0) ?s0)). clean_ok wk"
    using lock.prems
    by (intro lines_clean_set_pc [where s = s]) (simp_all add: lines_clean_def clean_ok_other)
  with lock.prems show ?case
    by (simp add: lines_clean_def)
next
  case (write_line w s i pos)
  let ?s0 = "s\<lparr>temp_file :=
       Some (case_option [] id (temp_file s) @ shared_output_lines s ! pos @ [newline])\<rparr>"
  from write_line.prems write_line(1) have "clean_ok (workers s ! w)"
    by (simp add: lines_clean_def)
  then have "\<forall>wk\<in>set (workers (set_pc w (Flushing i (Suc pos)) ?s0)). clean_ok wk"
    using write_line.prems
    by (intro lines_clean_set_pc [where s = s]) (simp_all add: lines_clean_def clean_ok_other)
  with write_line.prems show ?case
    by (simp add: lines_clean_def)
next
  case (unlock w s i pos)
  let ?s0 = "s\<lparr>file_write_lock := None\<rparr>"
  from unlock.prems unlock(1) have "clean_ok (workers s ! w)"
    by (simp add: lines_clean_def)
  then have "\<forall>wk\<in>set (workers (set_pc w (LoopTop (i + nat (batch_size st))) ?s0)). clean_ok wk"
    using unlock.prems
    by (intro lines_clean_set_pc [where s = s]) (simp_all add: lines_clean_def clean_ok_other)
  with unlock.prems show ?case
    by (simp add: lines_clean_def)
qed

lemma init_output_clean:
  assumes "\<forall>l\<in>set raw. no_newline l"
  shows "\<forall>v\<in>set (init_output raw). no_newline v"
proof
  fix v
  assume "v \<in> set (init_output raw)"
  then obtain line where l: "line \<in> set raw"
    and v: "v = (if has_sep line then py_strip (py_split line ! 0) @ sep else line)"
    by (auto simp: init_output_def)
  have p0: "py_split line ! 0 \<in> set (py_split line)"
    using py_split_not_Nil [of line] by simp
  have "no_newline (py_strip (py_split line ! 0) @ sep)"
    using set_py_split [OF p0] set_py_strip [of "py_split line ! 0"] assms l
    by (auto simp: no_newline_def sep_def newline_def)
  with assms l v show "no_newline v"
    by simp
qed

lemma start_job_clean:
  assumes "start_job st raw tmp out = Inr s0" and "\<forall>l\<in>set raw. no_newline l"
  shows "lines_clean s0"
proof -
  note s = start_job_Inr [OF assms(1)]
  have "clean_ok wk" if "wk \<in> set (workers s0)" for wk
  proof -
    have "no_newline (fst x)" if "x \<in> set (chunk_data wk)" for x
    proof -
      from chunk_mem [OF assms(1) \<open>wk \<in> set (workers s0)\<close> that]
      have "snd x < length raw \<and> fst x = raw ! snd x"
        using data_points_mem by blast
      with assms(2) show ?thesis by simp
    qed
    moreover have "pc wk = LoopTop 0"
      using s(7) that by simp
    ultimately show ?thesis
      by (simp add: clean_ok_def)
  qed
  with init_output_clean [OF assms(2)] s(1) show ?thesis
    by (simp add: lines_clean_def)
qed

lemma checkpoint_invariant:
  assumes st: "start_job st raw tmp out = Inr s0" and raw: "\<forall>l\<in>set raw. no_newline l"
  defines "J \<equiv> \<lambda>s. lock_inv s \<and> lines_clean s \<and> ckpt_ok (\<lambda>k. no_newline) tmp s"
  shows "J (run_schedule st s0 evs)"
proof (rule run_schedule_invariant)
  show "J s0"
    unfolding J_def using start_job_invs(1) [OF st] start_job_clean [OF st raw]
      start_job_invs(3) [OF st, of "\<lambda>k. no_newline"] by simp
next
  fix s s'
  assume J: "J s" and m: "move st s s'"
  have q: "\<forall>k<length (shared_output_lines s). no_newline (shared_output_lines s ! k)"
    using J by (simp add: J_def lines_clean_def)
  have "lock_inv s" and "ckpt_ok (\<lambda>k. no_newline) tmp s"
    using J by (simp_all add: J_def)
  then have "ckpt_ok (\<lambda>k. no_newline) tmp s'"
    using q by (rule ckpt_ok_move [where Q = "\<lambda>k. no_newline", OF m])
  with lock_inv_move [OF m] lines_clean_move [OF m] J show "J s'"
    by (simp add: J_def)
qed



section \<open>What a stopped worker leaves behind\<close>

lemma concat_nth_disjoint:
  "distinct (concat xss) \<Longrightarrow> i < j \<Longrightarrow> j < length xss \<Longrightarrow> set (xss ! i) \<inter> set (xss ! j) = {}"
proof (induction xss arbitrary: i j)
  case Nil
  then show ?case by simp
next
  case (Cons a xss)
  from Cons.prems(2) obtain j' where j: "j = Suc j'"
    by (cases j) auto
  show ?case
  proof (cases i)
    case 0
    from Cons.prems(3) j have "xss ! j' \<in> set xss"
      by simp
    then have "set (xss ! j') \<subseteq> set (concat xss)"
      by auto
    with Cons.prems(1) 0 j show ?thesis
      by auto
  next
    case (Suc i')
    with Cons.IH [of i' j'] Cons.prems j show ?thesis
      by simp
  qed
qed

lemma concat_nth_distinct: "distinct (concat xss) \<Longrightarrow> i < length xss \<Longrightarrow> distinct (xss ! i)"
  by (simp add: distinct_concat_iff)

lemma chunks_disjoint:
  assumes "disjoint_chunks s" and "w < length (workers s)" and "w' < length (workers s)"
    and "w \<noteq> w'"
  shows "snd ` set (chunk_data (workers s ! w)) \<inter> snd ` set (chunk_data (workers s ! w')) = {}"
proof -
  let ?xss = "map (map snd \<circ> chunk_data) (workers s)"
  have d: "distinct (concat ?xss)"
    using assms(1) by (simp add: disjoint_chunks_def)
  have "set (?xss ! w) \<inter> set (?xss ! w') = {}"
  proof (cases "w < w'")
    case True
    with concat_nth_disjoint [OF d, of w w'] assms(3) show ?thesis by simp
  next
    case False
    with assms(4) have "w' < w" by simp
    with concat_nth_disjoint [OF d, of w' w] assms(2) show ?thesis by auto
  qed
  with assms(2,3) show ?thesis by simp
qed

lemma chunk_distinct:
  assumes "disjoint_chunks s" and "w < length (workers s)"
  shows "distinct (map snd (chunk_data (workers s ! w)))"
proof -
  let ?xss = "map (map snd \<circ> chunk_data) (workers s)"
  have "distinct (?xss ! w)"
    using assms by (intro concat_nth_distinct) (simp_all add: disjoint_chunks_def)
  with assms(2) show ?thesis by simp
qed

lemma disjoint_chunks_cong:
  "map chunk_data (workers s') = map chunk_data (workers s) \<Longrightarrow> disjoint_chunks s' = disjoint_chunks s"
  unfolding disjoint_chunks_def by (metis map_map)

lemma data_points_indices: "map snd (data_points raw) = [start_off raw..<length raw]"
proof (rule nth_equalityI)
  show "length (map snd (data_points raw)) = length [start_off raw..<length raw]"
    by (simp add: data_points_def)
next
  fix i
  assume "i < length (map snd (data_points raw))"
  then have i: "i < length raw - start_off raw"
    by (simp add: data_points_def)
  then have "map snd (data_points raw) ! i = start_off raw + i"
    by (simp add: data_points_def nth_enumerate_eq)
  with i show "map snd (data_points raw) ! i = [start_off raw..<length raw] ! i"
    by simp
qed

lemma start_job_disjoint:
  assumes "start_job st raw tmp out = Inr s0"
  shows "disjoint_chunks s0"
proof -
  have "concat (map (map snd \<circ> chunk_data) (workers s0))
      = map snd (concat (map chunk_data (workers s0)))"
    by (simp add: map_concat)
  also have "\<dots> = [start_off raw..<length raw]"
    by (simp only: start_job_Inr(6) [OF assms] data_points_indices)
  finally show ?thesis
    by (simp add: disjoint_chunks_def)
qed

lemma untouched_ok_later:
  assumes "untouched_ok st init buf wk"
    and "frontier st p = None \<or>
         (\<exists>a b. frontier st (pc wk) = Some a \<and> frontier st p = Some b \<and> a \<le> b)"
  shows "untouched_ok st init buf (wk\<lparr>pc := p\<rparr>)"
  using assms unfolding untouched_ok_def by (auto split: option.splits)

lemma untouched_ok_update:
  assumes "untouched_ok st init buf wk"
    and "\<And>n j. frontier st (pc wk) = Some n \<Longrightarrow> n \<le> j \<Longrightarrow> j < length (chunk_data wk) \<Longrightarrow>
           snd (chunk_data wk ! j) \<noteq> idx"
  shows "untouched_ok st init (buf[idx := v]) wk"
proof (cases "frontier st (pc wk)")
  case None
  then show ?thesis by (simp add: untouched_ok_def)
next
  case (Some n)
  have "buf[idx := v] ! snd (chunk_data wk ! j) = init ! snd (chunk_data wk ! j)"
    if "n \<le> j" and "j < length (chunk_data wk)" for j
  proof -
    from assms(2) [OF Some that] have "idx \<noteq> snd (chunk_data wk ! j)"
      by simp
    then have "buf[idx := v] ! snd (chunk_data wk ! j) = buf ! snd (chunk_data wk ! j)"
      by (rule nth_list_update_neq)
    with assms(1) Some that show ?thesis
      by (simp add: untouched_ok_def)
  qed
  with Some show ?thesis
    by (simp add: untouched_ok_def)
qed

lemma untouched_set_pc:
  assumes "workers t = workers s" and "w < length (workers s)"
    and "untouched_ok st init (shared_output_lines t) ((workers s ! w)\<lparr>pc := p\<rparr>)"
    and "\<And>w'. w' < length (workers s) \<Longrightarrow> w' \<noteq> w \<Longrightarrow>
           untouched_ok st init (shared_output_lines t) (workers s ! w')"
  shows "untouched st init (set_pc w p t)"
  unfolding untouched_def
proof (intro allI impI)
  fix w'
  assume "w' < length (workers (set_pc w p t))"
  then have w': "w' < length (workers s)"
    using assms(1) by simp
  show "untouched_ok st init (shared_output_lines (set_pc w p t)) (workers (set_pc w p t) ! w')"
  proof (cases "w' = w")
    case True
    with assms(1,2,3) show ?thesis
      by (simp add: set_pc_nth)
  next
    case False
    with assms(1,4) w' show ?thesis
      by (simp add: set_pc_nth)
  qed
qed

lemma untouched_same_buffer:
  assumes "untouched st init s" and "w < length (workers s)"
    and "frontier st p = None \<or>
         (\<exists>a b. frontier st (pc (workers s ! w)) = Some a \<and> frontier st p = Some b \<and> a \<le> b)"
    and "workers t = workers s" and "shared_output_lines t = shared_output_lines s"
  shows "untouched st init (set_pc w p t)"
proof (rule untouched_set_pc [OF assms(4,2)])
  have "untouched_ok st init (shared_output_lines s) (workers s ! w)"
    using assms(1,2) by (simp add: untouched_def)
  then show "untouched_ok st init (shared_output_lines t) ((workers s ! w)\<lparr>pc := p\<rparr>)"
    using assms(3) by (simp only: assms(5)) (rule untouched_ok_later)
next
  fix w'
  assume "w' < length (workers s)"
  with assms(1) show "untouched_ok st init (shared_output_lines t) (workers s ! w')"
    by (simp add: untouched_def assms(5))
qed

lemma batch_index:
  assumes "idx \<in> snd ` set (batch_of st wk i)"
  shows "\<exists>j. i \<le> j \<and> j < i + nat (batch_size st) \<and> j < length (chunk_data wk) \<and>
             idx = snd (chunk_data wk ! j)"
proof -
  let ?b = "take (nat (batch_size st)) (drop i (chunk_data wk))"
  from assms obtain k where k: "k < length ?b" and idx: "idx = snd (?b ! k)"
    by (auto simp: batch_of_def in_set_conv_nth)
  from k have "k < nat (batch_size st)" and "i + k < length (chunk_data wk)"
    by (simp_all add: less_diff_conv add.commute)
  moreover from k have "?b ! k = chunk_data wk ! (i + k)"
    by (simp add: less_diff_conv add.commute)
  ultimately show ?thesis
    using idx by (intro exI [of _ "i + k"]) simp
qed

lemma untouched_move:
  assumes "move st s s'" and "owns_writes st s" and "disjoint_chunks s" and "untouched st init s"
  shows "untouched st init s'"
  using assms
proof (induction rule: move.induct)
  case (stop_request s)
  then show ?case by (simp add: untouched_def)
next
  case (goto w s p)
  have "frontier st p = None \<or>
         (\<exists>a b. frontier st (pc (workers s ! w)) = Some a \<and> frontier st p = Some b \<and> a \<le> b)"
    using goto(3) by (cases "pc (workers s ! w)") auto
  with goto show ?case
    by (intro untouched_same_buffer [where s = s]) simp_all
next
  case (store w s i idx v rest)
  let ?buf = "shared_output_lines s"
  let ?t = "s\<lparr>shared_output_lines := ?buf[idx := v]\<rparr>"
  from store.prems(1) store(1) have "own_ok st (workers s ! w)"
    unfolding owns_writes_def by simp
  with store(2) have in_batch: "idx \<in> snd ` set (batch_of st (workers s ! w) i)"
    by (simp add: own_ok_def)
  from batch_index [OF this] obtain j0 where j0: "j0 < i + nat (batch_size st)"
    "j0 < length (chunk_data (workers s ! w))" "idx = snd (chunk_data (workers s ! w) ! j0)"
    by blast
  have own: "untouched_ok st init (?buf[idx := v]) ((workers s ! w)\<lparr>pc := Writing i rest\<rparr>)"
  proof -
    have old: "untouched_ok st init ?buf (workers s ! w)"
      using store.prems(3) store(1) by (simp add: untouched_def)
    have "untouched_ok st init (?buf[idx := v]) (workers s ! w)"
    proof (rule untouched_ok_update [OF old])
      fix n j
      assume "frontier st (pc (workers s ! w)) = Some n" and "n \<le> j"
        and j: "j < length (chunk_data (workers s ! w))"
      with store(2) j0(1) have ne: "j \<noteq> j0"
        by simp
      have "distinct (map snd (chunk_data (workers s ! w)))"
        using store.prems(2) store(1) by (rule chunk_distinct)
      then have "(map snd (chunk_data (workers s ! w)) ! j = map snd (chunk_data (workers s ! w)) ! j0)
          = (j = j0)"
        by (intro nth_eq_iff_index_eq) (use j j0(2) in simp_all)
      with ne have "map snd (chunk_data (workers s ! w)) ! j \<noteq> map snd (chunk_data (workers s ! w)) ! j0"
        by simp
      with j j0(2,3) show "snd (chunk_data (workers s ! w) ! j) \<noteq> idx"
        by simp
    qed
    moreover have "frontier st (Writing i rest) = None \<or>
         (\<exists>a b. frontier st (pc (workers s ! w)) = Some a \<and>
                frontier st (Writing i rest) = Some b \<and> a \<le> b)"
      using store(2) by simp
    ultimately show ?thesis
      by (rule untouched_ok_later)
  qed
  have others: "untouched_ok st init (?buf[idx := v]) (workers s ! w')"
    if "w' < length (workers s)" and "w' \<noteq> w" for w'
  proof -
    have old: "untouched_ok st init ?buf (workers s ! w')"
      using store.prems(3) that(1) by (simp add: untouched_def)
    have "set (batch_of st (workers s ! w) i) \<subseteq> set (chunk_data (workers s ! w))"
      unfolding batch_of_def by (meson set_take_subset set_drop_subset subset_trans)
    with in_batch have "idx \<in> snd ` set (chunk_data (workers s ! w))"
      by blast
    with chunks_disjoint [OF store.prems(2) store(1) that(1)] that(2)
    have out: "idx \<notin> snd ` set (chunk_data (workers s ! w'))"
      by blast
    show ?thesis
    proof (rule untouched_ok_update [OF old])
      fix n j
      assume "j < length (chunk_data (workers s ! w'))"
      then have "snd (chunk_data (workers s ! w') ! j) \<in> snd ` set (chunk_data (workers s ! w'))"
        by simp
      with out show "snd (chunk_data (workers s ! w') ! j) \<noteq> idx"
        by metis
    qed
  qed
  show ?case
    by (rule untouched_set_pc [where s = s]) (use store(1) own others in simp_all)
next
  case (lock w s i)
  then show ?case
    by (intro untouched_same_buffer [where s = s]) simp_all
next
  case (write_line w s i pos)
  then show ?case
    by (intro untouched_same_buffer [where s = s]) simp_all
next
  case (unlock w s i pos)
  then show ?case
    by (intro untouched_same_buffer [where s = s]) simp_all
qed

lemma stopped_flag_set_pc:
  assumes "stopped_flag s" and "workers t = workers s" and "stop_event t = stop_event s"
    and "\<And>n. p = Stopped n \<Longrightarrow> stop_event s"
  shows "stopped_flag (set_pc w p t)"
  unfolding stopped_flag_def
proof (intro allI impI, elim conjE)
  fix w' n
  assume w': "w' < length (workers (set_pc w p t))"
    and st: "pc (workers (set_pc w p t) ! w') = Stopped n"
  from w' have lt: "w' < length (workers t)"
    by simp
  show "stop_event (set_pc w p t)"
  proof (cases "w' = w")
    case True
    with st lt have "p = Stopped n"
      by (simp add: set_pc_pc)
    with assms(3,4) show ?thesis by simp
  next
    case False
    with st lt have "pc (workers s ! w') = Stopped n"
      by (simp add: set_pc_pc assms(2))
    with assms(1,2,3) lt show ?thesis
      unfolding stopped_flag_def by auto
  qed
qed

lemma stopped_flag_move:
  assumes "move st s s'" and "stopped_flag s"
  shows "stopped_flag s'"
  using assms
proof (induction rule: move.induct)
  case (stop_request s)
  then show ?case by (simp add: stopped_flag_def)
next
  case (goto w s p)
  have "stop_event s" if "p = Stopped n" for n
    using goto(3) that by (cases "pc (workers s ! w)") auto
  with goto.prems show ?case
    by (intro stopped_flag_set_pc [where s = s]) simp_all
next
  case (store w s i idx v rest)
  then show ?case
    by (intro stopped_flag_set_pc [where s = s]) simp_all
next
  case (lock w s i)
  then show ?case
    by (intro stopped_flag_set_pc [where s = s]) simp_all
next
  case (write_line w s i pos)
  then show ?case
    by (intro stopped_flag_set_pc [where s = s]) simp_all
next
  case (unlock w s i pos)
  then show ?case
    by (intro stopped_flag_set_pc [where s = s]) simp_all
qed

lemma stopped_stays:
  assumes "move st s s'" and "w < length (workers s)" and "pc (workers s ! w) = Stopped n"
  shows "pc (workers s' ! w) = Stopped n"
  using assms
proof (induction rule: move.induct)
  case (stop_request s)
  then show ?case by simp
next
  case (goto w0 s p)
  then have "w0 \<noteq> w"
    by auto
  with goto.prems show ?case
    by (simp add: set_pc_pc)
next
  case (store w0 s i idx v rest)
  then have "w0 \<noteq> w"
    by auto
  with store.prems show ?case
    by (simp add: set_pc_pc)
next
  case (lock w0 s i)
  then have "w0 \<noteq> w"
    by auto
  with lock.prems show ?case
    by (simp add: set_pc_pc)
next
  case (write_line w0 s i pos)
  then have "w0 \<noteq> w"
    by auto
  with write_line.prems show ?case
    by (simp add: set_pc_pc)
next
  case (unlock w0 s i pos)
  then have "w0 \<noteq> w"
    by auto
  with unlock.prems show ?case
    by (simp add: set_pc_pc)
qed

lemma stopped_slots_kept:
  assumes "move st s s'" and "owns_writes st s" and "disjoint_chunks s"
    and "w < length (workers s)" and "pc (workers s ! w) = Stopped n"
    and "x \<in> set (chunk_data (workers s ! w))"
  shows "shared_output_lines s' ! snd x = shared_output_lines s ! snd x"
  using assms
proof (induction rule: move.induct)
  case (store w0 s i idx v rest)
  then have ne: "w0 \<noteq> w"
    by auto
  from store.prems(1) store(1) have "own_ok st (workers s ! w0)"
    unfolding owns_writes_def by simp
  with store(2) have "idx \<in> snd ` set (batch_of st (workers s ! w0) i)"
    by (simp add: own_ok_def)
  moreover have "set (batch_of st (workers s ! w0) i) \<subseteq> set (chunk_data (workers s ! w0))"
    unfolding batch_of_def by (meson set_take_subset set_drop_subset subset_trans)
  ultimately have "idx \<in> snd ` set (chunk_data (workers s ! w0))"
    by blast
  moreover have "snd x \<in> snd ` set (chunk_data (workers s ! w))"
    using store.prems(5) by simp
  ultimately have "idx \<noteq> snd x"
    using chunks_disjoint [OF store.prems(2) store(1) store.prems(3) ne] by blast
  then show ?case
    by simp
qed simp_all

lemma cancel_invariant:
  assumes st: "start_job st raw tmp out = Inr s0"
  defines "K \<equiv> \<lambda>s. owns_writes st s \<and> disjoint_chunks s \<and> untouched st (init_output raw) s \<and>
      stopped_flag s"
  shows "K (run_schedule st s0 evs)"
proof (rule run_schedule_invariant)
  have "untouched st (init_output raw) s0"
    by (simp add: untouched_def untouched_ok_def start_job_Inr(1) [OF st] split: option.splits)
  moreover have "stopped_flag s0"
    using start_job_Inr(7) [OF st] by (auto simp: stopped_flag_def)
  ultimately show "K s0"
    unfolding K_def using start_job_invs(2) [OF st] start_job_disjoint [OF st] by simp
next
  fix s s'
  assume K: "K s" and m: "move st s s'"
  have "disjoint_chunks s'"
    using disjoint_chunks_cong [OF move_frame(2) [OF m]] K by (simp add: K_def)
  with owns_writes_move [OF m] untouched_move [OF m] stopped_flag_move [OF m] K show "K s'"
    by (simp add: K_def)
qed

text \<open>
  C6, amended: a worker that finds the flag set at the head of its loop (line 207) has
  the flag set indeed, stays stopped, and no slot of its chunk changes in any later
  schedule: no other worker stores there either. The entries of its chunk from the
  position where it stopped still hold the values they were initialised to. The batch
  that was running when the stop request came is not covered: it is still stored, as the
  schedule above shows.
\<close>

theorem stopped_worker_writes_nothing:
  assumes "start_job st raw tmp out = Inr s0" and "s1 = run_schedule st s0 evs1"
    and "w < length (workers s1)" and "pc (workers s1 ! w) = Stopped n"
    and "s2 = run_schedule st s1 evs2"
  shows "stop_event s1 \<and> pc (workers s2 ! w) = Stopped n \<and>
         (\<forall>x\<in>set (chunk_data (workers s1 ! w)).
            shared_output_lines s2 ! snd x = shared_output_lines s1 ! snd x) \<and>
         (\<forall>j. n \<le> j \<and> j < length (chunk_data (workers s1 ! w)) \<longrightarrow>
            shared_output_lines s2 ! snd (chunk_data (workers s1 ! w) ! j)
              = init_output raw ! snd (chunk_data (workers s1 ! w) ! j))"
proof -
  let ?ch = "chunk_data (workers s1 ! w)"
  from cancel_invariant [OF assms(1), of evs1] assms(2)
  have k1: "owns_writes st s1" "disjoint_chunks s1" "stopped_flag s1"
    by simp_all
  have a: "stop_event s1"
    using k1(3) assms(3,4) unfolding stopped_flag_def by blast
  define P where "P = (\<lambda>s. owns_writes st s \<and> disjoint_chunks s \<and> w < length (workers s) \<and>
      chunk_data (workers s ! w) = ?ch \<and> pc (workers s ! w) = Stopped n \<and>
      (\<forall>x\<in>set ?ch. shared_output_lines s ! snd x = shared_output_lines s1 ! snd x))"
  have "P (run_schedule st s1 evs2)"
  proof (rule run_schedule_invariant)
    show "P s1"
      using k1 assms(3,4) by (simp add: P_def)
  next
    fix s s'
    assume P: "P s" and m: "move st s s'"
    have "disjoint_chunks s'"
      using disjoint_chunks_cong [OF move_frame(2) [OF m]] P by (simp add: P_def)
    moreover have "w < length (workers s')"
      using move_frame(1) [OF m] P by (simp add: P_def)
    moreover have "chunk_data (workers s' ! w) = ?ch"
      using move_chunk [OF m, of w] P by (simp add: P_def)
    moreover have "pc (workers s' ! w) = Stopped n"
      using stopped_stays [OF m] P by (simp add: P_def)
    moreover have "\<forall>x\<in>set ?ch. shared_output_lines s' ! snd x = shared_output_lines s1 ! snd x"
    proof
      fix x
      assume x: "x \<in> set ?ch"
      with P have "x \<in> set (chunk_data (workers s ! w))"
        by (simp add: P_def)
      from stopped_slots_kept [OF m _ _ _ _ this] P
      have "shared_output_lines s' ! snd x = shared_output_lines s ! snd x"
        by (simp add: P_def)
      with P x show "shared_output_lines s' ! snd x = shared_output_lines s1 ! snd x"
        by (simp add: P_def)
    qed
    ultimately show "P s'"
      using owns_writes_move [OF m] P by (simp add: P_def)
  qed
  with assms(5) have p2: "w < length (workers s2)" "chunk_data (workers s2 ! w) = ?ch"
    "pc (workers s2 ! w) = Stopped n"
    "\<forall>x\<in>set ?ch. shared_output_lines s2 ! snd x = shared_output_lines s1 ! snd x"
    by (simp_all add: P_def)
  have "s2 = run_schedule st s0 (evs1 @ evs2)"
    using assms(2,5) by (simp add: run_schedule_append)
  with cancel_invariant [OF assms(1), of "evs1 @ evs2"] have "untouched st (init_output raw) s2"
    by simp
  with p2(1) have "untouched_ok st (init_output raw) (shared_output_lines s2) (workers s2 ! w)"
    by (simp add: untouched_def)
  then have d: "\<forall>j. n \<le> j \<and> j < length ?ch \<longrightarrow>
      shared_output_lines s2 ! snd (?ch ! j) = init_output raw ! snd (?ch ! j)"
    using p2(2,3) by (simp add: untouched_ok_def)
  from a p2(3,4) d show ?thesis
    by (intro conjI)
qed

theorem stopped_worker_writes_nothing_witness:
  "start_job \<lparr>threads = 1, batch_size = 1, stream = False, top_k = None\<rparr>
     [''1:::Hello'', ''2:::World''] None None
   = Inr \<lparr>shared_output_lines = [''1:::'', ''2:::''], stop_event = False, file_write_lock = None,
          temp_file = None, output_file = None,
          workers = [\<lparr>chunk_data = [(''1:::Hello'', 0), (''2:::World'', 1)], pc = LoopTop 0\<rparr>]\<rparr> \<and>
   run_schedule \<lparr>threads = 1, batch_size = 1, stream = False, top_k = None\<rparr>
     \<lparr>shared_output_lines = [''1:::'', ''2:::''], stop_event = False, file_write_lock = None,
      temp_file = None, output_file = None,
      workers = [\<lparr>chunk_data = [(''1:::Hello'', 0), (''2:::World'', 1)], pc = LoopTop 0\<rparr>]\<rparr>
     [Run 0,
      Call 0 \<lparr>stop_at_entry = False,
              post = Some \<lparr>status_code = 200, iter_lines = [],
                           json_content = Some ''1:::Xin chao''\<rparr>\<rparr>,
      Run 0, Run 0, Run 0, Run 0, Run 0, StopRequest, Run 0]
   = \<lparr>shared_output_lines = [''1:::Xin chao'', ''2:::''], stop_event = True,
      file_write_lock = None, temp_file = Some ''1:::Xin chao\<newline>2:::\<newline>'', output_file = None,
      workers = [\<lparr>chunk_data = [(''1:::Hello'', 0), (''2:::World'', 1)], pc = Stopped 1\<rparr>]\<rparr> \<and>
   pc (workers (run_schedule \<lparr>threads = 1, batch_size = 1, stream = False, top_k = None\<rparr>
     \<lparr>shared_output_lines = [''1:::Xin chao'', ''2:::''], stop_event = True,
      file_write_lock = None, temp_file = Some ''1:::Xin chao\<newline>2:::\<newline>'', output_file = None,
      workers = [\<lparr>chunk_data = [(''1:::Hello'', 0), (''2:::World'', 1)], pc = Stopped 1\<rparr>]\<rparr>
     [Run 0,
      Call 0 \<lparr>stop_at_entry = True,
              post = Some \<lparr>status_code = 200, iter_lines = [],
                           json_content = Some ''2:::The gioi''\<rparr>\<rparr>,
      Run 0]) ! 0) = Stopped 1 \<and>
   shared_output_lines (run_schedule \<lparr>threads = 1, batch_size = 1, stream = False, top_k = None\<rparr>
     \<lparr>shared_output_lines = [''1:::Xin chao'', ''2:::''], stop_event = True,
      file_write_lock = None, temp_file = Some ''1:::Xin chao\<newline>2:::\<newline>'', output_file = None,
      workers = [\<lparr>chunk_data = [(''1:::Hello'', 0), (''2:::World'', 1)], pc = Stopped 1\<rparr>]\<rparr>
     [Run 0,
      Call 0 \<lparr>stop_at_entry = True,
              post = Some \<lparr>status_code = 200, iter_lines = [],
                           json_content = Some ''2:::The gioi''\<rparr>\<rparr>,
      Run 0]) ! 1 = ''2:::''"
proof -
  let ?st = "\<lparr>threads = 1, batch_size = 1, stream = False, top_k = None\<rparr>"
  let ?raw = "[''1:::Hello'', ''2:::World'']"
  let ?init = "\<lparr>shared_output_lines = [''1:::'', ''2:::''], stop_event = False, file_write_lock = None,
      temp_file = None, output_file = None,
      workers = [\<lparr>chunk_data = [(''1:::Hello'', 0), (''2:::World'', 1)], pc = LoopTop 0\<rparr>]\<rparr>"
  let ?evs = "[Run 0,
      Call 0 \<lparr>stop_at_entry = False,
              post = Some \<lparr>status_code = 200, iter_lines = [],
                           json_content = Some ''1:::Xin chao''\<rparr>\<rparr>,
      Run 0, Run 0, Run 0, Run 0, Run 0, StopRequest, Run 0]"
  let ?mid = "\<lparr>shared_output_lines = [''1:::Xin chao'', ''2:::''], stop_event = True,
      file_write_lock = None, temp_file = Some ''1:::Xin chao\<newline>2:::\<newline>'', output_file = None,
      workers = [\<lparr>chunk_data = [(''1:::Hello'', 0), (''2:::World'', 1)], pc = Stopped 1\<rparr>]\<rparr>"
  let ?more = "[Run 0,
      Call 0 \<lparr>stop_at_entry = True,
              post = Some \<lparr>status_code = 200, iter_lines = [],
                           json_content = Some ''2:::The gioi''\<rparr>\<rparr>,
      Run 0]"
  have h1: "start_job ?st ?raw None None = Inr ?init"
    by code_simp
  have h2: "run_schedule ?st ?init ?evs = ?mid"
    by code_simp
  have h3: "0 < length (workers ?mid)"
    by simp
  have h4: "pc (workers ?mid ! 0) = Stopped 1"
    by simp
  note t = stopped_worker_writes_nothing [OF h1 h2 [symmetric] h3 h4 refl, of ?more]
  have c1: "pc (workers (run_schedule ?st ?mid ?more) ! 0) = Stopped 1"
    by (rule t [THEN conjunct2, THEN conjunct1])
  have j: "(1::nat) \<le> 1 \<and> 1 < length (chunk_data (workers ?mid ! 0))"
    by simp
  have ix: "snd (chunk_data (workers ?mid ! 0) ! 1) = 1"
    by simp
  have i1: "init_output ?raw ! 1 = ''2:::''"
    by code_simp
  have "shared_output_lines (run_schedule ?st ?mid ?more) ! snd (chunk_data (workers ?mid ! 0) ! 1)
        = init_output ?raw ! snd (chunk_data (workers ?mid ! 0) ! 1)"
    by (rule t [THEN conjunct2, THEN conjunct2, THEN conjunct2, rule_format, OF j])
  then have c2: "shared_output_lines (run_schedule ?st ?mid ?more) ! 1 = ''2:::''"
    by (simp only: ix i1)
  show ?thesis
    by (rule conjI [OF h1 conjI [OF h2 conjI [OF c1 c2]]])
qed

end
